theory Spec2Isabelle
  imports Complex_Main "HOL-Library.Sublist" "HOL-Library.AList"
begin

section \<open>Caption segmentation and delta emission (backend/bot.py)\<close>

text \<open>
  The theory embeds the caption pipeline of \<^verbatim>\<open>backend/bot.py\<close>: the text
  normaliser and the merge judge of \<^verbatim>\<open>CaptionSegmenter\<close>, its \<^verbatim>\<open>update\<close> and
  \<^verbatim>\<open>flush_ready\<close> operations, the dedup gate \<^verbatim>\<open>_emit_final\<close>, and the periodic
  delta emitter (\<^verbatim>\<open>_prefix_len\<close>, \<^verbatim>\<open>_on_caption\<close>, \<^verbatim>\<open>_emit_periodic\<close>).

  Modelling decisions.
  \<^item> A Python \<^verbatim>\<open>str\<close> is a \<open>string\<close> whose characters are the code points 0 to
    255 (ASCII and Latin-1), on which \<^verbatim>\<open>isalnum\<close>, \<^verbatim>\<open>isspace\<close>, \<^verbatim>\<open>lower\<close> and
    \<^verbatim>\<open>strip\<close> are Python's; text with a code point from 256 on is outside the model.
  \<^item> A Python \<^verbatim>\<open>float\<close> holding seconds is a \<open>real\<close>: the code only subtracts
    and compares clock readings.
  \<^item> Every \<^verbatim>\<open>time.time()\<close> read inside an operation is an argument \<open>now\<close> of
    the operation.
  \<^item> A \<^verbatim>\<open>dict\<close> is an association list in insertion order: assigning to a
    present key keeps its position, assigning to a new key appends it, \<^verbatim>\<open>pop\<close>
    removes it (\<open>AList.update\<close>, \<open>AList.delete\<close>, \<open>map_of\<close>).
  \<^item> \<^verbatim>\<open>difflib.SequenceMatcher(None, p, c).ratio()\<close> is library code outside the
    repository: it is the parameter \<open>ratio\<close>, whose result \<open>None\<close> stands for a
    raised exception.
  \<^item> The \<^verbatim>\<open>async\<close> operations run under one lock; each is one atomic function
    from the state before to the state after.
\<close>

subsection \<open>Characters and strings\<close>

text \<open>\<^verbatim>\<open>str.isalnum\<close> of a code point below 256: the digits and letters of ASCII, and of
  Latin-1 the ordinal indicators, the superscript digits, the micro sign, the vulgar
  fractions and the letters (all of 192 to 255 but the multiplication and the division
  sign).\<close>

definition isalnum :: "char \<Rightarrow> bool" where
  "isalnum ch =
     (let n = (of_char ch :: nat) in
      (48 \<le> n \<and> n \<le> 57) \<or> (65 \<le> n \<and> n \<le> 90) \<or> (97 \<le> n \<and> n \<le> 122) \<or>
      n = 170 \<or> (178 \<le> n \<and> n \<le> 179) \<or> n = 181 \<or> (185 \<le> n \<and> n \<le> 186) \<or>
      (188 \<le> n \<and> n \<le> 190) \<or> (192 \<le> n \<and> n \<le> 214) \<or> (216 \<le> n \<and> n \<le> 246) \<or>
      (248 \<le> n \<and> n \<le> 255))"

text \<open>\<^verbatim>\<open>str.isspace\<close> of a code point below 256: tab, line feed, vertical tab, form
  feed, carriage return, the four separators 28 to 31, the space, the next-line
  control 133 and the no-break space 160. \<^verbatim>\<open>str.strip\<close> removes the same characters.\<close>

definition isspace :: "char \<Rightarrow> bool" where
  "isspace ch =
     (let n = (of_char ch :: nat) in
      (9 \<le> n \<and> n \<le> 13) \<or> (28 \<le> n \<and> n \<le> 32) \<or> n = 133 \<or> n = 160)"

text \<open>\<^verbatim>\<open>str.lower\<close> of one code point below 256: the capital letters of ASCII and of
  Latin-1 move up by 32, every other character stays.\<close>

definition lower_char :: "char \<Rightarrow> char" where
  "lower_char ch =
     (let n = (of_char ch :: nat) in
      if (65 \<le> n \<and> n \<le> 90) \<or> (192 \<le> n \<and> n \<le> 214) \<or> (216 \<le> n \<and> n \<le> 222)
      then char_of (n + 32) else ch)"

definition lower :: "string \<Rightarrow> string" where
  "lower s = map lower_char s"

definition lstrip :: "string \<Rightarrow> string" where
  "lstrip s = dropWhile isspace s"

definition rstrip :: "string \<Rightarrow> string" where
  "rstrip s = rev (dropWhile isspace (rev s))"

definition strip :: "string \<Rightarrow> string" where
  "strip s = rstrip (lstrip s)"

text \<open>\<^verbatim>\<open>a.startswith(b)\<close> is \<open>prefix b a\<close>. \<^verbatim>\<open>b in a\<close> on strings searches \<open>b\<close>
  at every position of \<open>a\<close>.\<close>

fun str_in :: "string \<Rightarrow> string \<Rightarrow> bool" where
  "str_in b [] = (b = [])"
| "str_in b (x # xs) = (prefix b (x # xs) \<or> str_in b xs)"

subsection \<open>Text normaliser: \<^verbatim>\<open>CaptionSegmenter._norm\<close>\<close>

text \<open>Named \<open>norm_text\<close>: \<open>norm\<close> is the norm of a vector space in HOL.\<close>

fun norm_loop :: "string \<Rightarrow> string \<Rightarrow> bool \<Rightarrow> string" where
  "norm_loop [] out last_space = out"
| "norm_loop (ch # s) out last_space =
     (if isalnum ch then norm_loop s (out @ [ch]) False
      else if \<not> last_space then norm_loop s (out @ [CHR '' '']) True
      else norm_loop s out last_space)"

definition norm_text :: "string \<Rightarrow> string" where
  "norm_text s = strip (norm_loop (lower s) [] False)"

subsection \<open>Merge judge: \<^verbatim>\<open>CaptionSegmenter._should_merge\<close>\<close>

type_synonym ratio_fn = "string \<Rightarrow> string \<Rightarrow> real option"

definition should_merge :: "ratio_fn \<Rightarrow> string \<Rightarrow> string \<Rightarrow> bool" where
  "should_merge ratio prev cur =
     (if prev = [] then True
      else if cur = [] then False
      else if prefix prev cur \<or> prefix cur prev then True
      else
        (let p = norm_text prev; c = norm_text cur in
         if p = [] \<or> c = [] then True
         else if prefix p c \<or> prefix c p then True
         else if str_in p c \<or> str_in c p then True
         else
           (let tail = (if length p > 24 then drop (length p - 24) p else p) in
            if tail \<noteq> [] \<and> str_in tail c then True
            else (case ratio p c of
                    None \<Rightarrow> False
                  | Some r \<Rightarrow> r \<ge> 80 / 100))))"

subsection \<open>The segmenter: \<^verbatim>\<open>Segment\<close> and \<^verbatim>\<open>CaptionSegmenter\<close>\<close>

record Segment =
  combined :: string
  frag :: string
  started_at :: real
  updated_at :: real

text \<open>The object holds its six tunables, the per-speaker drafts \<^verbatim>\<open>_segments\<close> and the
  queue \<^verbatim>\<open>_completed\<close> of finalised fragments \<open>(speaker, text, time)\<close>.\<close>

type_synonym flushed = "string \<times> string \<times> real"

record CaptionSegmenter =
  merge_consecutive :: bool
  idle_seconds :: real
  merge_gap_seconds :: real
  max_segment_seconds :: real
  revision_window_seconds :: real
  force_split_gap_seconds :: real
  segments :: "(string \<times> Segment) list"
  completed :: "flushed list"

text \<open>\<^verbatim>\<open>__init__\<close>: the tunables as given, no draft, nothing queued.\<close>

definition init :: "bool \<Rightarrow> real \<Rightarrow> real \<Rightarrow> real \<Rightarrow> real \<Rightarrow> real \<Rightarrow> CaptionSegmenter" where
  "init merge_consecutive' idle_seconds' merge_gap_seconds' max_segment_seconds'
        revision_window_seconds' force_split_gap_seconds' =
     \<lparr>merge_consecutive = merge_consecutive',
      idle_seconds = idle_seconds',
      merge_gap_seconds = merge_gap_seconds',
      max_segment_seconds = max_segment_seconds',
      revision_window_seconds = revision_window_seconds',
      force_split_gap_seconds = force_split_gap_seconds',
      segments = [],
      completed = []\<rparr>"

text \<open>The module's constants \<^verbatim>\<open>MERGE_CONSECUTIVE_CAPTIONS\<close>, \<^verbatim>\<open>CAPTION_IDLE_SECONDS\<close>,
  \<^verbatim>\<open>MERGE_GAP_SECONDS\<close>, \<^verbatim>\<open>MAX_SEGMENT_SECONDS\<close>, \<^verbatim>\<open>REVISION_WINDOW_SECONDS\<close> and
  \<^verbatim>\<open>FORCE_SPLIT_GAP_SECONDS\<close>.\<close>

definition default_segmenter :: CaptionSegmenter where
  "default_segmenter = init False 2 1 20 8 30"

definition segment_text :: "Segment \<Rightarrow> string" where
  "segment_text seg =
     (let combined' = strip (combined seg); frag' = strip (frag seg) in
      if combined' \<noteq> [] \<and> frag' \<noteq> [] then strip (combined' @ '' '' @ frag')
      else strip (if combined' \<noteq> [] then combined' else frag'))"

definition fresh_segment :: "string \<Rightarrow> real \<Rightarrow> Segment" where
  "fresh_segment text now = \<lparr>combined = [], frag = text, started_at = now, updated_at = now\<rparr>"

text \<open>The block that \<^verbatim>\<open>update\<close> repeats at each of its three splits: queue the
  draft's text when it is not empty, stamped with the draft's \<^verbatim>\<open>updated_at\<close>, and put
  a fresh draft in its place.\<close>

definition split_draft :: "CaptionSegmenter \<Rightarrow> string \<Rightarrow> Segment \<Rightarrow> string \<Rightarrow> real \<Rightarrow> CaptionSegmenter" where
  "split_draft self speaker seg text now =
     (let prev = segment_text seg in
      self\<lparr>completed := (if prev \<noteq> [] then completed self @ [(speaker, prev, updated_at seg)]
                          else completed self),
           segments := AList.update speaker (fresh_segment text now) (segments self)\<rparr>)"

text \<open>The two lines \<^verbatim>\<open>seg.frag = text; seg.updated_at = now\<close> on the stored draft.\<close>

definition revise_draft :: "CaptionSegmenter \<Rightarrow> string \<Rightarrow> Segment \<Rightarrow> string \<Rightarrow> real \<Rightarrow> CaptionSegmenter" where
  "revise_draft self speaker seg text now =
     self\<lparr>segments := AList.update speaker (seg\<lparr>frag := text, updated_at := now\<rparr>) (segments self)\<rparr>"

text \<open>Grouped mode folds the fragment into \<^verbatim>\<open>combined\<close> before the draft takes the
  new text.\<close>

definition fold_fragment :: "Segment \<Rightarrow> Segment" where
  "fold_fragment seg =
     (let frag' = strip (frag seg) in
      if frag' \<noteq> [] then
        (let combined' = strip (combined seg) in
         seg\<lparr>combined := (if combined' \<noteq> [] then strip (combined' @ '' '' @ frag') else frag')\<rparr>)
      else seg)"

text \<open>\<^verbatim>\<open>update(speaker, text, ts)\<close>; \<open>now\<close> is the clock read at its start.\<close>

definition update :: "ratio_fn \<Rightarrow> CaptionSegmenter \<Rightarrow> string \<Rightarrow> string \<Rightarrow> real \<Rightarrow> real \<Rightarrow> CaptionSegmenter" where
  "update ratio self speaker text ts now =
     (if text = [] then self
      else
        (case map_of (segments self) speaker of
           None \<Rightarrow>
             self\<lparr>segments := AList.update speaker (fresh_segment text now) (segments self)\<rparr>
         | Some seg \<Rightarrow>
             (let gap = now - updated_at seg in
              if gap > force_split_gap_seconds self then split_draft self speaker seg text now
              else if gap \<le> revision_window_seconds self \<and> should_merge ratio (frag seg) text
                then revise_draft self speaker seg text now
              else if gap > revision_window_seconds self \<and> \<not> should_merge ratio (frag seg) text
                then split_draft self speaker seg text now
              else if merge_consecutive self then
                (if gap > merge_gap_seconds self then split_draft self speaker seg text now
                 else revise_draft self speaker (fold_fragment seg) text now)
              else revise_draft self speaker seg text now)))"

text \<open>\<^verbatim>\<open>flush_ready\<close>, first loop: the queued fragments that have waited
  \<^verbatim>\<open>idle_seconds\<close> go to \<^verbatim>\<open>to_flush\<close>, the others to \<^verbatim>\<open>remaining\<close>.\<close>

fun flush_completed :: "real \<Rightarrow> real \<Rightarrow> flushed list \<Rightarrow> flushed list \<Rightarrow> flushed list
    \<Rightarrow> flushed list \<times> flushed list" where
  "flush_completed now idle [] to_flush remaining = (to_flush, remaining)"
| "flush_completed now idle ((spk, txt, t_updated) # rest) to_flush remaining =
     (if now - t_updated \<ge> idle
      then flush_completed now idle rest (to_flush @ [(spk, txt, t_updated)]) remaining
      else flush_completed now idle rest to_flush (remaining @ [(spk, txt, t_updated)]))"

text \<open>Second loop, over a copy of the items: a draft that is stable or too long is
  appended to \<^verbatim>\<open>to_flush\<close> and popped from the dictionary.\<close>

fun flush_segments :: "real \<Rightarrow> real \<Rightarrow> real \<Rightarrow> (string \<times> Segment) list \<Rightarrow> flushed list
    \<Rightarrow> (string \<times> Segment) list \<Rightarrow> flushed list \<times> (string \<times> Segment) list" where
  "flush_segments now idle max_seg [] to_flush segs = (to_flush, segs)"
| "flush_segments now idle max_seg ((spk, seg) # items) to_flush segs =
     (let stable = (now - updated_at seg \<ge> idle);
          too_long = (now - started_at seg \<ge> max_seg) in
      if stable \<or> too_long
      then flush_segments now idle max_seg items
             (to_flush @ [(spk, segment_text seg, updated_at seg)]) (AList.delete spk segs)
      else flush_segments now idle max_seg items to_flush segs)"

definition flush_ready :: "CaptionSegmenter \<Rightarrow> real \<Rightarrow> CaptionSegmenter \<times> flushed list" where
  "flush_ready self now =
     (let (to_flush, remaining) =
            (if completed self \<noteq> []
             then flush_completed now (idle_seconds self) (completed self) [] []
             else ([], completed self));
          (to_flush', segs') =
            flush_segments now (idle_seconds self) (max_segment_seconds self)
              (segments self) to_flush (segments self)
      in (self\<lparr>completed := remaining, segments := segs'\<rparr>, to_flush'))"

subsection \<open>The caption observer: dedup gate and delta emitter\<close>

text \<open>The state that \<^verbatim>\<open>_attach_caption_observer\<close> closes over: the latest snapshot per
  speaker, the snapshot last accounted for per speaker, the module's table
  \<^verbatim>\<open>LAST_SENT\<close> from dedup key to the time of its last emission, and the lines handed
  downstream so far, each as \<open>(speaker, text, ts)\<close> (the payload of the POST, or of the
  fallback log line).\<close>

record Observer =
  curr_by_speaker :: "(string \<times> string) list"
  emitted_last_by_speaker :: "(string \<times> string) list"
  LAST_SENT :: "(string \<times> real) list"
  sent :: "(string \<times> string \<times> real) list"

definition observer0 :: Observer where
  "observer0 = \<lparr>curr_by_speaker = [], emitted_last_by_speaker = [], LAST_SENT = [], sent = []\<rparr>"

definition DEDUP_WINDOW_SECONDS :: real where
  "DEDUP_WINDOW_SECONDS = 2"

text \<open>\<^verbatim>\<open>LAST_SENT.get(key, 0)\<close>.\<close>

definition get_or :: "('k \<times> 'v) list \<Rightarrow> 'k \<Rightarrow> 'v \<Rightarrow> 'v" where
  "get_or d k dflt = (case map_of d k of None \<Rightarrow> dflt | Some v \<Rightarrow> v)"

definition dedupe_key :: "string \<Rightarrow> string \<Rightarrow> string" where
  "dedupe_key spk txt = spk @ ''|'' @ txt"

text \<open>The sweep over \<^verbatim>\<open>list(LAST_SENT.items())\<close> pops every key whose time is before
  the cutoff.\<close>

definition prune :: "real \<Rightarrow> (string \<times> real) list \<Rightarrow> (string \<times> real) list" where
  "prune cutoff d = filter (\<lambda>(k, v). \<not> v < cutoff) d"

text \<open>\<^verbatim>\<open>_emit_final(speaker, text, ts)\<close>; \<open>now\<close> is the clock read inside it.\<close>

definition emit_final :: "Observer \<Rightarrow> string \<Rightarrow> string \<Rightarrow> real \<Rightarrow> real \<Rightarrow> Observer" where
  "emit_final st speaker text ts now =
     (let txt = strip text; spk = strip speaker in
      if txt = [] then st
      else
        (let key = dedupe_key spk txt in
         if map_of (LAST_SENT st) key \<noteq> None
            \<and> now - get_or (LAST_SENT st) key 0 < DEDUP_WINDOW_SECONDS
         then st
         else
           (let recorded = AList.update key now (LAST_SENT st);
                swept = (if length recorded > 5000 then prune (now - 120) recorded else recorded)
            in st\<lparr>LAST_SENT := swept, sent := sent st @ [(spk, txt, ts)]\<rparr>)))"

text \<open>\<^verbatim>\<open>_prefix_len(a, b)\<close>. The inner loops \<^verbatim>\<open>while i < la and a[i].isspace(): i += 1\<close>
  are \<open>skip_space\<close>; the outer loop is \<open>prefix_len_loop\<close> on the two indices.\<close>

function skip_space :: "string \<Rightarrow> nat \<Rightarrow> nat" where
  "skip_space a i = (if i < length a \<and> isspace (a ! i) then skip_space a (Suc i) else i)"
  by pat_completeness auto
termination
  by (relation "measure (\<lambda>(a, i). length a - i)") auto

declare skip_space.simps [simp del]

function prefix_len_loop :: "string \<Rightarrow> string \<Rightarrow> nat \<Rightarrow> nat \<Rightarrow> nat" where
  "prefix_len_loop a b i j =
     (if i < length a \<and> j < length b then
        (let i' = (if isspace (a ! i) then skip_space a i else i);
             ca = (if isspace (a ! i) then CHR '' '' else a ! i);
             j' = (if isspace (b ! j) then skip_space b j else j);
             cb = (if isspace (b ! j) then CHR '' '' else b ! j)
         in if lower_char ca = lower_char cb then prefix_len_loop a b (Suc i') (Suc j') else j')
      else j)"
  by pat_completeness auto
termination
proof -
  have ge: "i \<le> skip_space a i" for a i
  proof (induction a i rule: skip_space.induct)
    case (1 a i)
    show ?case
    proof (cases "i < length a \<and> isspace (a ! i)")
      case True
      then have "skip_space a i = skip_space a (Suc i)" by (subst skip_space.simps) simp
      with 1 True show ?thesis by simp
    next
      case False
      then have "skip_space a i = i" by (subst skip_space.simps) auto
      then show ?thesis by simp
    qed
  qed
  show ?thesis
    apply (relation "measure (\<lambda>(a, b, i, j). length a - i)")
     apply simp
    subgoal for a b i j x xa xb xc
      using ge [of i a] by (auto split: if_splits)
    done
qed

declare prefix_len_loop.simps [simp del]

definition prefix_len :: "string \<Rightarrow> string \<Rightarrow> nat" where
  "prefix_len a b = prefix_len_loop a b 0 0"

text \<open>\<^verbatim>\<open>_on_caption(data)\<close>, with the two fields of \<^verbatim>\<open>data\<close> as arguments (a missing
  field is the empty string).\<close>

definition on_caption :: "Observer \<Rightarrow> string \<Rightarrow> string \<Rightarrow> Observer" where
  "on_caption st text speaker =
     (let cur = strip text; speaker' = strip speaker in
      if cur = [] then st
      else
        (let speaker'' = (if speaker' = [] then ''Unknown'' else speaker') in
         st\<lparr>curr_by_speaker := AList.update speaker'' cur (curr_by_speaker st)\<rparr>))"

text \<open>The delta that one round of \<^verbatim>\<open>_emit_periodic\<close> computes for a speaker.\<close>

definition delta_of :: "string \<Rightarrow> string \<Rightarrow> string" where
  "delta_of prev cur =
     (if prev \<noteq> [] then strip (drop (prefix_len prev cur) cur) else cur)"

text \<open>The body of the \<^verbatim>\<open>for\<close> loop of \<^verbatim>\<open>_emit_periodic\<close> for one \<open>(speaker, cur)\<close>;
  \<open>now\<close> is the clock read at the start of the round and \<open>clock speaker\<close> the one read
  inside the call of \<^verbatim>\<open>_emit_final\<close> for that speaker.\<close>

definition emit_speaker :: "real \<Rightarrow> (string \<Rightarrow> real) \<Rightarrow> string \<times> string \<Rightarrow> Observer \<Rightarrow> Observer" where
  "emit_speaker now clock item st =
     (let speaker = fst item; cur = snd item;
          prev = get_or (emitted_last_by_speaker st) speaker [];
          delta = delta_of prev cur
      in if delta \<noteq> [] \<and> length delta \<ge> 2
         then (emit_final st speaker delta now (clock speaker))
                \<lparr>emitted_last_by_speaker := AList.update speaker cur (emitted_last_by_speaker st)\<rparr>
         else st\<lparr>emitted_last_by_speaker :=
                   AList.update speaker (if prev \<noteq> [] then prev else cur) (emitted_last_by_speaker st)\<rparr>)"

text \<open>One round of \<^verbatim>\<open>_emit_periodic\<close> after its sleep: the body for every item of
  \<^verbatim>\<open>list(curr_by_speaker.items())\<close>, in order.\<close>

definition emit_periodic :: "real \<Rightarrow> (string \<Rightarrow> real) \<Rightarrow> Observer \<Rightarrow> Observer" where
  "emit_periodic now clock st = fold (emit_speaker now clock) (curr_by_speaker st) st"

subsection \<open>The normal form of a text, as the specification words it\<close>

text \<open>The text in lower case, with every maximal run of characters that are not
  alphanumeric collapsed to one space, and the spaces at its two ends trimmed.\<close>

function collapse_runs :: "string \<Rightarrow> string" where
  "collapse_runs [] = []"
| "collapse_runs (c # cs) =
     (if isalnum c then c # collapse_runs cs
      else CHR '' '' # collapse_runs (dropWhile (\<lambda>x. \<not> isalnum x) cs))"
  by pat_completeness auto
termination
proof (relation "measure length")
  show "wf (measure length)" by simp
next
  fix c :: char and cs :: string
  assume "isalnum c"
  show "(cs, c # cs) \<in> measure length" by simp
next
  fix c :: char and cs :: string
  assume "\<not> isalnum c"
  have "length (dropWhile (\<lambda>x. \<not> isalnum x) cs) \<le> length cs"
    by (rule length_dropWhile_le)
  then show "(dropWhile (\<lambda>x. \<not> isalnum x) cs, c # cs) \<in> measure length" by simp
qed

definition trim_spaces :: "string \<Rightarrow> string" where
  "trim_spaces s =
     rev (dropWhile (\<lambda>c. c = CHR '' '') (rev (dropWhile (\<lambda>c. c = CHR '' '') s)))"

definition spec_norm :: "string \<Rightarrow> string" where
  "spec_norm s = trim_spaces (collapse_runs (lower s))"

subsection \<open>The ordered decision list of the judge, as the specification words it\<close>

text \<open>A rule is a condition with its verdict; the first rule whose condition holds
  decides, and no rule firing means no merge.\<close>

fun first_match :: "(bool \<times> bool) list \<Rightarrow> bool" where
  "first_match [] = False"
| "first_match ((cond, verdict) # rules) = (if cond then verdict else first_match rules)"

definition last_at_most :: "nat \<Rightarrow> 'a list \<Rightarrow> 'a list" where
  "last_at_most n xs = drop (length xs - n) xs"

definition merge_rules :: "ratio_fn \<Rightarrow> string \<Rightarrow> string \<Rightarrow> (bool \<times> bool) list" where
  "merge_rules ratio previous current =
     [(previous = [], True),
      (current = [], False),
      (prefix previous current \<or> prefix current previous, True),
      (spec_norm previous = [] \<or> spec_norm current = [], True),
      (prefix (spec_norm previous) (spec_norm current) \<or> prefix (spec_norm current) (spec_norm previous)
         \<or> sublist (spec_norm previous) (spec_norm current) \<or> sublist (spec_norm current) (spec_norm previous), True),
      (sublist (last_at_most 24 (spec_norm previous)) (spec_norm current), True),
      (case ratio (spec_norm previous) (spec_norm current) of
         None \<Rightarrow> False | Some r \<Rightarrow> r \<ge> 0.80, True)]"

definition spec_should_merge :: "ratio_fn \<Rightarrow> string \<Rightarrow> string \<Rightarrow> bool" where
  "spec_should_merge ratio previous current = first_match (merge_rules ratio previous current)"

subsection \<open>Readiness on a flush tick, as the specification words it\<close>

text \<open>A queued fragment is ready once its time stamp is \<^verbatim>\<open>idle\<close> seconds old; a live
  draft is ready once it has had no update for \<^verbatim>\<open>idle\<close> seconds or is \<^verbatim>\<open>max_seg\<close>
  seconds old. A flushed draft is handed over as its speaker, its text and the time of
  its last update.\<close>

definition queued_ready :: "real \<Rightarrow> real \<Rightarrow> flushed \<Rightarrow> bool" where
  "queued_ready now idle c = (now - snd (snd c) \<ge> idle)"

definition draft_ready :: "real \<Rightarrow> real \<Rightarrow> real \<Rightarrow> Segment \<Rightarrow> bool" where
  "draft_ready now idle max_seg seg =
     (now - updated_at seg \<ge> idle \<or> now - started_at seg \<ge> max_seg)"

definition flushed_draft :: "string \<times> Segment \<Rightarrow> flushed" where
  "flushed_draft item = (fst item, segment_text (snd item), updated_at (snd item))"

subsection \<open>The dedup window, as the specification words it\<close>

text \<open>An attempt is suppressed when its key, the stripped speaker, a bar and the
  stripped text, was emitted less than \<^verbatim>\<open>DEDUP_WINDOW_SECONDS\<close> before \<open>now\<close>.\<close>

definition suppressed :: "Observer \<Rightarrow> string \<Rightarrow> string \<Rightarrow> real \<Rightarrow> bool" where
  "suppressed st speaker text now =
     (case map_of (LAST_SENT st) (strip speaker @ ''|'' @ strip text) of
        None \<Rightarrow> False
      | Some t \<Rightarrow> now - t < DEDUP_WINDOW_SECONDS)"

subsection \<open>The longest common prefix, as the specification words it\<close>

text \<open>The comparison is up to case and takes a run of white space for one blank.
  \<open>spec_prefix_len a b\<close> is the number of characters of \<open>b\<close> that the longest common
  prefix of \<open>a\<close> and \<open>b\<close> covers: two runs of white space match and are passed whole,
  two other characters match when they agree up to case, and the prefix ends at the
  first pair that does not match or at the end of either text. The delta is the suffix
  of the new snapshot after that boundary.\<close>

function spec_prefix_len :: "string \<Rightarrow> string \<Rightarrow> nat" where
  "spec_prefix_len [] b = 0"
| "spec_prefix_len (x # xs) [] = 0"
| "spec_prefix_len (x # xs) (y # ys) =
     (if isspace x \<and> isspace y
      then Suc (length (takeWhile isspace ys))
             + spec_prefix_len (dropWhile isspace xs) (dropWhile isspace ys)
      else if \<not> isspace x \<and> \<not> isspace y \<and> lower_char x = lower_char y
      then Suc (spec_prefix_len xs ys)
      else 0)"
  by pat_completeness auto
termination
proof (relation "measure (\<lambda>(a, b). length a)")
  show "wf (measure (\<lambda>(a, b). length a))" by simp
next
  fix x y :: char and xs ys :: string
  have "length (dropWhile isspace xs) \<le> length xs"
    by (rule length_dropWhile_le)
  then show "((dropWhile isspace xs, dropWhile isspace ys), x # xs, y # ys)
      \<in> measure (\<lambda>(a, b). length a)"
    by simp
next
  fix x y :: char and xs ys :: string
  show "((xs, ys), x # xs, y # ys) \<in> measure (\<lambda>(a, b). length a)"
    by simp
qed

definition spec_delta :: "string \<Rightarrow> string \<Rightarrow> string" where
  "spec_delta prev cur = drop (spec_prefix_len prev cur) cur"

text \<open>The number of leading positions at which two strings agree up to case, with no
  regard for white space.\<close>

fun common_prefix_ci :: "string \<Rightarrow> string \<Rightarrow> nat" where
  "common_prefix_ci (x # xs) (y # ys) =
     (if lower_char x = lower_char y then Suc (common_prefix_ci xs ys) else 0)"
| "common_prefix_ci [] ys = 0"
| "common_prefix_ci xs [] = 0"

subsection \<open>Clocks of the examples\<close>

text \<open>Every call of \<^verbatim>\<open>_emit_final\<close> within a round reads the time \<open>t\<close>.\<close>

definition same_clock :: "real \<Rightarrow> string \<Rightarrow> real" where
  "same_clock t speaker = t"

subsection \<open>The time stamps a segmenter holds\<close>

text \<open>Every \<^verbatim>\<open>started_at\<close> and \<^verbatim>\<open>updated_at\<close> of a draft and every time of a queued
  fragment.\<close>

definition stamps :: "CaptionSegmenter \<Rightarrow> real set" where
  "stamps self =
     started_at ` snd ` set (segments self) \<union> updated_at ` snd ` set (segments self)
       \<union> (\<lambda>c. snd (snd c)) ` set (completed self)"

subsection \<open>Inputs of the examples\<close>

text \<open>A similarity function that never answers: the examples are decided by the
  rules of the judge that come before the ratio.\<close>

definition no_ratio :: ratio_fn where
  "no_ratio p c = None"

text \<open>A similarity function that answers \<open>r\<close> on every pair.\<close>

definition constant_ratio :: "real \<Rightarrow> ratio_fn" where
  "constant_ratio r p c = Some r"

text \<open>A draft of \<^verbatim>\<open>"Alice"\<close> that grows by one letter every second, with the default
  tunables: the state after the revision at second \<open>n\<close>.\<close>

fun revised_every_second :: "ratio_fn \<Rightarrow> nat \<Rightarrow> CaptionSegmenter" where
  "revised_every_second ratio 0 = update ratio default_segmenter ''Alice'' ''a'' 0 0"
| "revised_every_second ratio (Suc n) =
     update ratio (revised_every_second ratio n) ''Alice'' (replicate (Suc (Suc n)) CHR ''a'')
       (real (Suc n)) (real (Suc n))"

section \<open>Properties\<close>

subsection \<open>Strings\<close>

lemma str_in_sublist: "str_in b a = sublist b a"
  by (induction a) (auto simp: sublist_Cons_right)

lemma last_at_most_tail:
  "(if length p > n then drop (length p - n) p else p) = last_at_most n p"
  by (simp add: last_at_most_def)

subsection \<open>The normaliser computes the normal form\<close>

lemma norm_loop_collapse:
  "norm_loop xs out last_space =
     out @ collapse_runs (if last_space then dropWhile (\<lambda>x. \<not> isalnum x) xs else xs)"
  by (induction xs arbitrary: out last_space) simp_all

lemma collapse_runs_chars:
  "c \<in> set (collapse_runs xs) \<Longrightarrow> isalnum c \<or> c = CHR '' ''"
proof (induction xs rule: collapse_runs.induct)
  case 1
  then show ?case by simp
next
  case (2 x xs)
  then show ?case by (auto split: if_splits)
qed

lemma isalnum_not_space: "isalnum c \<Longrightarrow> \<not> isspace c"
  by (auto simp: isalnum_def isspace_def Let_def)

lemma strip_trim_spaces:
  assumes "\<forall>c \<in> set ys. isalnum c \<or> c = CHR '' ''"
  shows "strip ys = trim_spaces ys"
proof -
  have sp: "isspace c = (c = CHR '' '')" if "c \<in> set ys" for c
    using assms that isalnum_not_space [of c] by (auto simp: isspace_def)
  have 1: "dropWhile isspace ys = dropWhile (\<lambda>c. c = CHR '' '') ys"
    by (rule dropWhile_cong) (simp_all add: sp)
  have "set (rev (dropWhile (\<lambda>c. c = CHR '' '') ys)) \<subseteq> set ys"
    using set_dropWhileD by fastforce
  then have 2: "dropWhile isspace (rev (dropWhile (\<lambda>c. c = CHR '' '') ys)) =
      dropWhile (\<lambda>c. c = CHR '' '') (rev (dropWhile (\<lambda>c. c = CHR '' '') ys))"
    by (intro dropWhile_cong) (auto simp: sp)
  show ?thesis
    by (simp add: strip_def lstrip_def rstrip_def trim_spaces_def 1 2)
qed

lemma norm_text_spec: "norm_text s = spec_norm s"
proof -
  have "norm_loop (lower s) [] False = collapse_runs (lower s)"
    by (simp add: norm_loop_collapse)
  moreover have "strip (collapse_runs (lower s)) = trim_spaces (collapse_runs (lower s))"
    by (rule strip_trim_spaces) (blast dest: collapse_runs_chars)
  ultimately show ?thesis
    by (simp add: norm_text_def spec_norm_def)
qed

subsection \<open>The merge judge follows the decision list\<close>

text \<open>
  Claim C1. For every pair of strings, \<open>should_merge\<close> returns true exactly when the
  first matching rule of the ordered decision list is a merge: previous empty, merge;
  current empty, no merge; one raw string a prefix of the other, merge; then, on the
  normal forms of the two texts (lower case, runs of non-alphanumeric characters
  collapsed to one space, trimmed): a normal form empty, merge; a prefix or substring
  relation in either direction, merge; the last at most 24 characters of the normal
  form of the previous text occurring in that of the current text, merge; a similarity
  ratio of the normal forms of at least 0.80, merge; otherwise no merge.
\<close>

theorem should_merge_decision_list:
  "should_merge ratio previous current = spec_should_merge ratio previous current"
proof -
  have tail_ne: "norm_text previous \<noteq> [] \<Longrightarrow> last_at_most 24 (norm_text previous) \<noteq> []"
    by (cases "norm_text previous") (simp_all add: last_at_most_def)
  show ?thesis
    unfolding should_merge_def spec_should_merge_def merge_rules_def Let_def
      last_at_most_tail str_in_sublist norm_text_spec [symmetric]
    using tail_ne by (auto split: option.splits)
qed

text \<open>The judge on texts that differ in case and punctuation (merged by the prefix
  rule on the normal forms), on unrelated texts without and with a similarity answer
  on either side of the threshold, and on a long previous text whose tail of 24
  characters recurs.\<close>

theorem should_merge_decision_list_witness:
  "spec_should_merge no_ratio ''HELLO there'' ''hello, THERE you''
   \<and> spec_norm ''hello, THERE you'' = ''hello there you''
   \<and> \<not> spec_should_merge no_ratio ''Hello'' ''Goodbye''
   \<and> spec_should_merge (constant_ratio (4 / 5)) ''Hello'' ''Goodbye''
   \<and> \<not> spec_should_merge (constant_ratio (79 / 100)) ''Hello'' ''Goodbye''
   \<and> spec_should_merge no_ratio ''we will ship the release on monday morning''
        ''so, the release on Monday morning it is''
   \<and> \<not> spec_should_merge no_ratio ''we will ship the release on monday morning''
        ''so, the release on Tuesday it is''"
proof -
  have 1: "should_merge no_ratio ''HELLO there'' ''hello, THERE you''"
    by code_simp
  have 2: "spec_norm ''hello, THERE you'' = ''hello there you''"
    by code_simp
  have 3: "\<not> should_merge no_ratio ''Hello'' ''Goodbye''"
    by code_simp
  have 4: "should_merge (constant_ratio (4 / 5)) ''Hello'' ''Goodbye''"
    by code_simp
  have 5: "\<not> should_merge (constant_ratio (79 / 100)) ''Hello'' ''Goodbye''"
    by code_simp
  have 6: "should_merge no_ratio ''we will ship the release on monday morning''
        ''so, the release on Monday morning it is''"
    by code_simp
  have 7: "\<not> should_merge no_ratio ''we will ship the release on monday morning''
        ''so, the release on Tuesday it is''"
    by code_simp
  show ?thesis
    using 1 2 3 4 5 6 7 by (simp add: should_merge_decision_list)
qed

subsection \<open>Flushing is filtering\<close>

lemma flush_completed_filter:
  "flush_completed now idle cs to_flush remaining =
     (to_flush @ filter (queued_ready now idle) cs,
      remaining @ filter (\<lambda>c. \<not> queued_ready now idle c) cs)"
  by (induction cs arbitrary: to_flush remaining) (auto simp: queued_ready_def)

lemma flush_segments_to_flush:
  "fst (flush_segments now idle mx items to_flush segs) =
     to_flush @ map flushed_draft (filter (\<lambda>item. draft_ready now idle mx (snd item)) items)"
  by (induction items arbitrary: to_flush segs)
     (auto simp: draft_ready_def flushed_draft_def Let_def)

lemma flush_segments_segs:
  "snd (flush_segments now idle mx items to_flush segs) =
     filter (\<lambda>kv. fst kv \<notin> fst ` set (filter (\<lambda>item. draft_ready now idle mx (snd item)) items)) segs"
proof (induction items arbitrary: to_flush segs)
  case Nil
  then show ?case by simp
next
  case (Cons item items)
  obtain spk seg where item: "item = (spk, seg)" by (cases item)
  show ?case
  proof (cases "draft_ready now idle mx seg")
    case True
    then have "snd (flush_segments now idle mx (item # items) to_flush segs) =
        snd (flush_segments now idle mx items
               (to_flush @ [(spk, segment_text seg, updated_at seg)]) (AList.delete spk segs))"
      by (simp add: item draft_ready_def Let_def)
    also have "\<dots> = filter (\<lambda>kv. fst kv \<notin> fst ` set (filter (\<lambda>item. draft_ready now idle mx (snd item)) items))
                       (AList.delete spk segs)"
      by (rule Cons.IH)
    also have "\<dots> = filter (\<lambda>kv. fst kv \<notin> fst ` set (filter (\<lambda>item. draft_ready now idle mx (snd item)) (item # items))) segs"
      using True by (auto simp: item AList.delete_eq intro!: filter_cong)
    finally show ?thesis .
  next
    case False
    then show ?thesis
      using Cons.IH by (simp add: item draft_ready_def Let_def)
  qed
qed

lemma filter_keys_distinct:
  assumes "distinct (map fst items)"
  shows "filter (\<lambda>kv. fst kv \<notin> fst ` set (filter P items)) items = filter (\<lambda>kv. \<not> P kv) items"
proof (rule filter_cong [OF refl])
  fix kv assume kv: "kv \<in> set items"
  have "fst kv \<in> fst ` set (filter P items) \<longleftrightarrow> P kv"
  proof
    assume "fst kv \<in> fst ` set (filter P items)"
    then obtain kv' where kv': "kv' \<in> set items" "P kv'" "fst kv' = fst kv" by auto
    with assms kv have "kv' = kv"
      by (metis eq_key_imp_eq_value prod.collapse)
    with kv' show "P kv" by simp
  next
    assume "P kv"
    with kv show "fst kv \<in> fst ` set (filter P items)" by auto
  qed
  then show "(fst kv \<notin> fst ` set (filter P items)) = (\<not> P kv)" by simp
qed

lemma flush_ready_eq:
  assumes "distinct (map fst (segments self))"
  shows "flush_ready self now =
     (self\<lparr>completed := filter (\<lambda>c. \<not> queued_ready now (idle_seconds self) c) (completed self),
           segments := filter (\<lambda>item. \<not> draft_ready now (idle_seconds self) (max_segment_seconds self) (snd item)) (segments self)\<rparr>,
      filter (queued_ready now (idle_seconds self)) (completed self)
        @ map flushed_draft (filter (\<lambda>item. draft_ready now (idle_seconds self) (max_segment_seconds self) (snd item)) (segments self)))"
proof -
  let ?idle = "idle_seconds self" and ?mx = "max_segment_seconds self"
  obtain tf rem where c: "(if completed self \<noteq> []
             then flush_completed now ?idle (completed self) [] []
             else ([], completed self)) = (tf, rem)"
    by (cases "(if completed self \<noteq> []
             then flush_completed now (idle_seconds self) (completed self) [] []
             else ([], completed self))") auto
  have tf: "tf = filter (queued_ready now ?idle) (completed self)"
    and rem: "rem = filter (\<lambda>c. \<not> queued_ready now ?idle c) (completed self)"
    using c by (auto simp: flush_completed_filter split: if_splits)
  obtain tf' segs' where s: "flush_segments now ?idle ?mx (segments self) tf (segments self) = (tf', segs')"
    by (cases "flush_segments now ?idle ?mx (segments self) tf (segments self)") auto
  have tf': "tf' = tf @ map flushed_draft (filter (\<lambda>item. draft_ready now ?idle ?mx (snd item)) (segments self))"
    using flush_segments_to_flush [of now ?idle ?mx "segments self" tf "segments self"] s by simp
  have "segs' = filter (\<lambda>kv. fst kv \<notin> fst ` set (filter (\<lambda>item. draft_ready now ?idle ?mx (snd item)) (segments self))) (segments self)"
    using flush_segments_segs [of now ?idle ?mx "segments self" tf "segments self"] s by simp
  then have segs': "segs' = filter (\<lambda>item. \<not> draft_ready now ?idle ?mx (snd item)) (segments self)"
    by (simp only: filter_keys_distinct [OF assms])
  have "flush_ready self now = (self\<lparr>completed := rem, segments := segs'\<rparr>, tf')"
    unfolding flush_ready_def c by (simp add: s)
  then show ?thesis
    by (simp only: tf rem tf' segs')
qed

subsection \<open>Evaluating the examples\<close>

lemmas char_simps = isspace_def isalnum_def lower_char_def
lemmas strip_simps = strip_def lstrip_def rstrip_def

lemma sm1: "should_merge ratio ''Hello'' ''Hello wor''"
  by (simp add: should_merge_def)
lemma sm2: "should_merge ratio ''Hello wor'' ''Hello world''"
  by (simp add: should_merge_def)

lemma hello_s1: "update ratio default_segmenter ''Alice'' ''Hello'' ts1 t0 =
   default_segmenter\<lparr>segments := [(''Alice'', \<lparr>combined = [], frag = ''Hello'', started_at = t0, updated_at = t0\<rparr>)]\<rparr>"
  by (simp add: update_def default_segmenter_def init_def fresh_segment_def)

lemma hello_s2: "update ratio (default_segmenter\<lparr>segments := [(''Alice'', \<lparr>combined = [], frag = ''Hello'', started_at = t0, updated_at = t0\<rparr>)]\<rparr>) ''Alice'' ''Hello wor'' ts2 (t0 + 1/2) =
   default_segmenter\<lparr>segments := [(''Alice'', \<lparr>combined = [], frag = ''Hello wor'', started_at = t0, updated_at = t0 + 1/2\<rparr>)]\<rparr>"
  by (simp add: update_def default_segmenter_def init_def revise_draft_def sm1)

lemma hello_s3: "update ratio (default_segmenter\<lparr>segments := [(''Alice'', \<lparr>combined = [], frag = ''Hello wor'', started_at = t0, updated_at = t0 + 1/2\<rparr>)]\<rparr>)
      ''Alice'' ''Hello world'' ts3 (t0 + 1) =
   default_segmenter\<lparr>segments := [(''Alice'', \<lparr>combined = [], frag = ''Hello world'', started_at = t0, updated_at = t0 + 1\<rparr>)]\<rparr>"
  by (simp add: update_def default_segmenter_def init_def revise_draft_def sm2)

lemma flush_one:
  "flush_ready (default_segmenter\<lparr>segments := [(spk, seg)]\<rparr>) now =
    (if now - updated_at seg \<ge> 2 \<or> now - started_at seg \<ge> 20
     then (default_segmenter, [(spk, segment_text seg, updated_at seg)])
     else (default_segmenter\<lparr>segments := [(spk, seg)]\<rparr>, []))"
  by (simp add: flush_ready_def default_segmenter_def init_def Let_def)

lemma st_frag: "segment_text \<lparr>combined = [], frag = f, started_at = a, updated_at = b\<rparr> = strip (strip f)"
  by (simp add: segment_text_def Let_def strip_simps)

lemma strip_hello [simp]: "strip ''Hello'' = ''Hello''" "strip ''Goodbye'' = ''Goodbye''"
  "strip ''Hello world'' = ''Hello world''" "strip '' '' = []"
  by (simp_all add: strip_simps char_simps)

subsection \<open>Revisions within the window overwrite the draft\<close>

text \<open>
  Claim C2. \<^verbatim>\<open>update\<close> tests the force split first and the revision next. For a
  speaker with a draft, an event with non-empty text that is not force-split (its gap
  since the draft's last update is at most \<^verbatim>\<open>force_split_gap_seconds\<close>), whose gap is
  at most \<^verbatim>\<open>revision_window_seconds\<close> and for which \<open>should_merge\<close> holds on the
  draft's fragment, only overwrites the fragment and the last-update time of the draft:
  nothing is split and nothing is queued. When the revision window is at most the
  force-split gap, as with the module's constants 8 and 30, every gap within the
  revision window is such a gap. With the default tunables, \<^verbatim>\<open>"Hello"\<close>,
  \<^verbatim>\<open>"Hello wor"\<close>, \<^verbatim>\<open>"Hello world"\<close> from \<^verbatim>\<open>"Alice"\<close> at steps of half a second give
  nothing on any flush before the idle window has elapsed, and exactly the one
  utterance \<^verbatim>\<open>"Hello world"\<close> on a flush after it.
\<close>

theorem update_revision_overwrites:
  "(map_of (segments self) speaker = Some seg \<and> text \<noteq> [] \<and>
      now - updated_at seg \<le> force_split_gap_seconds self \<and>
      now - updated_at seg \<le> revision_window_seconds self \<and>
      should_merge ratio (frag seg) text \<longrightarrow>
    update ratio self speaker text ts now =
      self\<lparr>segments := AList.update speaker (seg\<lparr>frag := text, updated_at := now\<rparr>) (segments self)\<rparr>)
   \<and> (revision_window_seconds self \<le> force_split_gap_seconds self \<and>
      map_of (segments self) speaker = Some seg \<and> text \<noteq> [] \<and>
      now - updated_at seg \<le> revision_window_seconds self \<and>
      should_merge ratio (frag seg) text \<longrightarrow>
    update ratio self speaker text ts now =
      self\<lparr>segments := AList.update speaker (seg\<lparr>frag := text, updated_at := now\<rparr>) (segments self)\<rparr> \<and>
    completed (update ratio self speaker text ts now) = completed self)
   \<and> (let s1 = update ratio default_segmenter ''Alice'' ''Hello'' ts1 t0;
           s2 = update ratio s1 ''Alice'' ''Hello wor'' ts2 (t0 + 1/2);
           s3 = update ratio s2 ''Alice'' ''Hello world'' ts3 (t0 + 1)
       in (now1 < t0 + 2 \<longrightarrow> flush_ready s1 now1 = (s1, [])) \<and>
          (now2 < t0 + 5/2 \<longrightarrow> flush_ready s2 now2 = (s2, [])) \<and>
          (now3 < t0 + 3 \<longrightarrow> flush_ready s3 now3 = (s3, [])) \<and>
          (t0 + 3 \<le> now4 \<longrightarrow>
             flush_ready s3 now4 = (default_segmenter, [(''Alice'', ''Hello world'', t0 + 1)])))"
proof (intro conjI)
  show "map_of (segments self) speaker = Some seg \<and> text \<noteq> [] \<and>
      now - updated_at seg \<le> force_split_gap_seconds self \<and>
      now - updated_at seg \<le> revision_window_seconds self \<and>
      should_merge ratio (frag seg) text \<longrightarrow>
    update ratio self speaker text ts now =
      self\<lparr>segments := AList.update speaker (seg\<lparr>frag := text, updated_at := now\<rparr>) (segments self)\<rparr>"
    by (simp add: update_def revise_draft_def Let_def)
next
  show "revision_window_seconds self \<le> force_split_gap_seconds self \<and>
      map_of (segments self) speaker = Some seg \<and> text \<noteq> [] \<and>
      now - updated_at seg \<le> revision_window_seconds self \<and>
      should_merge ratio (frag seg) text \<longrightarrow>
    update ratio self speaker text ts now =
      self\<lparr>segments := AList.update speaker (seg\<lparr>frag := text, updated_at := now\<rparr>) (segments self)\<rparr> \<and>
    completed (update ratio self speaker text ts now) = completed self"
    by (auto simp: update_def revise_draft_def Let_def)
next
  show "let s1 = update ratio default_segmenter ''Alice'' ''Hello'' ts1 t0;
           s2 = update ratio s1 ''Alice'' ''Hello wor'' ts2 (t0 + 1/2);
           s3 = update ratio s2 ''Alice'' ''Hello world'' ts3 (t0 + 1)
       in (now1 < t0 + 2 \<longrightarrow> flush_ready s1 now1 = (s1, [])) \<and>
          (now2 < t0 + 5/2 \<longrightarrow> flush_ready s2 now2 = (s2, [])) \<and>
          (now3 < t0 + 3 \<longrightarrow> flush_ready s3 now3 = (s3, [])) \<and>
          (t0 + 3 \<le> now4 \<longrightarrow>
             flush_ready s3 now4 = (default_segmenter, [(''Alice'', ''Hello world'', t0 + 1)]))"
    by (simp add: Let_def hello_s1 hello_s2 hello_s3 flush_one st_frag)
qed

theorem update_revision_overwrites_witness:
  "map_of (segments (update no_ratio default_segmenter ''Alice'' ''Hello'' 0 0)) ''Alice''
     = Some \<lparr>combined = [], frag = ''Hello'', started_at = 0, updated_at = 0\<rparr>
   \<and> should_merge no_ratio ''Hello'' ''Hello wor''
   \<and> update no_ratio (update no_ratio default_segmenter ''Alice'' ''Hello'' 0 0) ''Alice'' ''Hello wor'' (1/2) (1/2)
     = (update no_ratio default_segmenter ''Alice'' ''Hello'' 0 0)
         \<lparr>segments := AList.update ''Alice'' \<lparr>combined = [], frag = ''Hello wor'', started_at = 0, updated_at = 1/2\<rparr>
            (segments (update no_ratio default_segmenter ''Alice'' ''Hello'' 0 0))\<rparr>
   \<and> flush_ready (update no_ratio (update no_ratio (update no_ratio default_segmenter ''Alice'' ''Hello'' 0 0)
         ''Alice'' ''Hello wor'' (1/2) (0 + 1/2)) ''Alice'' ''Hello world'' 1 (0 + 1)) 3
       = (default_segmenter, [(''Alice'', ''Hello world'', 0 + 1)])"
proof -
  let ?s1 = "update no_ratio default_segmenter ''Alice'' ''Hello'' 0 0"
  let ?seg = "\<lparr>combined = [], frag = ''Hello'', started_at = 0, updated_at = 0 :: real\<rparr>"
  have h1: "map_of (segments ?s1) ''Alice'' = Some ?seg"
    by (simp add: hello_s1)
  have h2: "should_merge no_ratio ''Hello'' ''Hello wor''"
    by (rule sm1)
  have h: "map_of (segments ?s1) ''Alice'' = Some ?seg \<and> ''Hello wor'' \<noteq> [] \<and>
      1/2 - updated_at ?seg \<le> force_split_gap_seconds ?s1 \<and>
      1/2 - updated_at ?seg \<le> revision_window_seconds ?s1 \<and>
      should_merge no_ratio (frag ?seg) ''Hello wor''"
    using h1 h2 unfolding hello_s1 by (simp add: default_segmenter_def init_def)
  note t = update_revision_overwrites [of ?s1 "''Alice''" ?seg "''Hello wor''" "1/2" no_ratio "1/2"
      0 0 "1/2" 1 0 1 2 3]
  have a: "update no_ratio ?s1 ''Alice'' ''Hello wor'' (1/2) (1/2) =
      ?s1\<lparr>segments := AList.update ''Alice'' (?seg\<lparr>frag := ''Hello wor'', updated_at := 1/2\<rparr>) (segments ?s1)\<rparr>"
    using t [THEN conjunct1] h by (rule mp)
  have b: "flush_ready (update no_ratio (update no_ratio ?s1
         ''Alice'' ''Hello wor'' (1/2) (0 + 1/2)) ''Alice'' ''Hello world'' 1 (0 + 1)) 3
       = (default_segmenter, [(''Alice'', ''Hello world'', 0 + 1)])"
    using t [THEN conjunct2, THEN conjunct2] unfolding Let_def by simp
  show ?thesis using h1 h2 a b by simp
qed

subsection \<open>A long gap forces a split\<close>

text \<open>
  The claim as it is worded fails on a draft whose text is blank: \<^verbatim>\<open>update\<close> accepts
  the one-space text \<^verbatim>\<open>" "\<close> (it is not empty) and drafts it; 40 seconds later
  \<^verbatim>\<open>"Hello"\<close> forces the split, the draft materialises to the empty string, and the
  guard \<^verbatim>\<open>if prev:\<close> queues nothing.
\<close>

theorem update_force_split_counterexample:
  "map_of (segments (update no_ratio default_segmenter ''Alice'' '' '' 0 0)) ''Alice''
     = Some (fresh_segment '' '' 0)
   \<and> ''Hello'' \<noteq> []
   \<and> 40 - updated_at (fresh_segment '' '' 0)
       > force_split_gap_seconds (update no_ratio default_segmenter ''Alice'' '' '' 0 0)
   \<and> completed (update no_ratio (update no_ratio default_segmenter ''Alice'' '' '' 0 0)
                  ''Alice'' ''Hello'' 40 40) = []"
proof -
  have s1: "update no_ratio default_segmenter ''Alice'' '' '' 0 0 =
      default_segmenter\<lparr>segments := [(''Alice'', fresh_segment '' '' 0)]\<rparr>"
    by (simp add: update_def default_segmenter_def init_def)
  have s2: "completed (update no_ratio (default_segmenter\<lparr>segments := [(''Alice'', fresh_segment '' '' 0)]\<rparr>)
       ''Alice'' ''Hello'' 40 40) = []"
    by (simp add: update_def default_segmenter_def init_def split_draft_def fresh_segment_def st_frag
        Let_def strip_simps char_simps)
  show ?thesis
    unfolding s1 s2
    by (simp add: default_segmenter_def init_def fresh_segment_def)
qed

lemma goodbye_s2:
  "update ratio (default_segmenter\<lparr>segments := [(''Alice'', \<lparr>combined = [], frag = ''Hello'', started_at = 0, updated_at = 0\<rparr>)]\<rparr>)
      ''Alice'' ''Goodbye'' ts2 40 =
   default_segmenter\<lparr>completed := [(''Alice'', ''Hello'', 0)],
      segments := [(''Alice'', \<lparr>combined = [], frag = ''Goodbye'', started_at = 40, updated_at = 40\<rparr>)]\<rparr>"
  by (simp add: update_def default_segmenter_def init_def split_draft_def fresh_segment_def st_frag)

lemma goodbye_fresh:
  "update ratio default_segmenter ''Alice'' ''Goodbye'' ts2 40 =
   default_segmenter\<lparr>segments := [(''Alice'', \<lparr>combined = [], frag = ''Goodbye'', started_at = 40, updated_at = 40\<rparr>)]\<rparr>"
  by (simp add: update_def default_segmenter_def init_def fresh_segment_def)

lemma flush_goodbye:
  "42 \<le> now \<Longrightarrow> flush_ready (default_segmenter\<lparr>completed := [(''Alice'', ''Hello'', 0)],
      segments := [(''Alice'', \<lparr>combined = [], frag = ''Goodbye'', started_at = 40, updated_at = 40\<rparr>)]\<rparr>) now
    = (default_segmenter, [(''Alice'', ''Hello'', 0), (''Alice'', ''Goodbye'', 40)])"
  by (simp add: flush_ready_def default_segmenter_def init_def Let_def st_frag)

text \<open>
  Claim C3, amended. For a speaker with a draft, an event with non-empty text whose gap
  since the draft's last update exceeds \<^verbatim>\<open>force_split_gap_seconds\<close> replaces the draft
  with a fresh one whose fragment is the new text, whatever the two texts are, and
  queues the draft's materialised text (committed plus fragment), stamped with the
  draft's last-update time, when that text is not empty; an empty one is not queued.
  With the default tunables, \<^verbatim>\<open>"Hello"\<close> at 0 and \<^verbatim>\<open>"Goodbye"\<close> at 40 from one speaker
  give two utterances, whether or not a flush has emitted the first one in between.
\<close>

theorem update_force_split:
  "(map_of (segments self) speaker = Some seg \<and> text \<noteq> [] \<and>
      now - updated_at seg > force_split_gap_seconds self \<longrightarrow>
    update ratio self speaker text ts now =
      self\<lparr>completed := (if segment_text seg \<noteq> []
                           then completed self @ [(speaker, segment_text seg, updated_at seg)]
                           else completed self),
           segments := AList.update speaker (fresh_segment text now) (segments self)\<rparr>)
   \<and> (let s1 = update ratio default_segmenter ''Alice'' ''Hello'' ts1 0;
           s2 = update ratio s1 ''Alice'' ''Goodbye'' ts2 40
       in completed s2 = [(''Alice'', ''Hello'', 0)] \<and>
          segments s2 = [(''Alice'', fresh_segment ''Goodbye'' 40)] \<and>
          (42 \<le> now1 \<longrightarrow>
             flush_ready s2 now1 =
               (default_segmenter, [(''Alice'', ''Hello'', 0), (''Alice'', ''Goodbye'', 40)])) \<and>
          (2 \<le> now2 \<and> 42 \<le> now3 \<longrightarrow>
             flush_ready s1 now2 = (default_segmenter, [(''Alice'', ''Hello'', 0)]) \<and>
             flush_ready (update ratio (fst (flush_ready s1 now2)) ''Alice'' ''Goodbye'' ts2 40) now3 =
               (default_segmenter, [(''Alice'', ''Goodbye'', 40)])))"
proof (intro conjI)
  show "map_of (segments self) speaker = Some seg \<and> text \<noteq> [] \<and>
      now - updated_at seg > force_split_gap_seconds self \<longrightarrow>
    update ratio self speaker text ts now =
      self\<lparr>completed := (if segment_text seg \<noteq> []
                           then completed self @ [(speaker, segment_text seg, updated_at seg)]
                           else completed self),
           segments := AList.update speaker (fresh_segment text now) (segments self)\<rparr>"
    by (simp add: update_def split_draft_def Let_def)
next
  show "let s1 = update ratio default_segmenter ''Alice'' ''Hello'' ts1 0;
           s2 = update ratio s1 ''Alice'' ''Goodbye'' ts2 40
       in completed s2 = [(''Alice'', ''Hello'', 0)] \<and>
          segments s2 = [(''Alice'', fresh_segment ''Goodbye'' 40)] \<and>
          (42 \<le> now1 \<longrightarrow>
             flush_ready s2 now1 =
               (default_segmenter, [(''Alice'', ''Hello'', 0), (''Alice'', ''Goodbye'', 40)])) \<and>
          (2 \<le> now2 \<and> 42 \<le> now3 \<longrightarrow>
             flush_ready s1 now2 = (default_segmenter, [(''Alice'', ''Hello'', 0)]) \<and>
             flush_ready (update ratio (fst (flush_ready s1 now2)) ''Alice'' ''Goodbye'' ts2 40) now3 =
               (default_segmenter, [(''Alice'', ''Goodbye'', 40)]))"
    by (simp add: Let_def hello_s1 goodbye_s2 goodbye_fresh flush_goodbye flush_one st_frag fresh_segment_def)
qed

theorem update_force_split_witness:
  "map_of (segments (update no_ratio default_segmenter ''Alice'' ''Hello'' 0 0)) ''Alice''
     = Some (fresh_segment ''Hello'' 0)
   \<and> 40 - updated_at (fresh_segment ''Hello'' 0)
       > force_split_gap_seconds (update no_ratio default_segmenter ''Alice'' ''Hello'' 0 0)
   \<and> completed (update no_ratio (update no_ratio default_segmenter ''Alice'' ''Hello'' 0 0)
                  ''Alice'' ''Goodbye'' 40 40) = [(''Alice'', ''Hello'', 0)]
   \<and> flush_ready (update no_ratio (update no_ratio default_segmenter ''Alice'' ''Hello'' 0 0)
                  ''Alice'' ''Goodbye'' 40 40) 42
       = (default_segmenter, [(''Alice'', ''Hello'', 0), (''Alice'', ''Goodbye'', 40)])"
proof -
  let ?s1 = "update no_ratio default_segmenter ''Alice'' ''Hello'' 0 0"
  let ?seg = "fresh_segment ''Hello'' 0"
  have s1: "?s1 = default_segmenter\<lparr>segments := [(''Alice'', ?seg)]\<rparr>"
    by (simp add: hello_s1 fresh_segment_def)
  have h1: "map_of (segments ?s1) ''Alice'' = Some ?seg"
    unfolding s1 by simp
  have h2: "40 - updated_at ?seg > force_split_gap_seconds ?s1"
    unfolding s1 by (simp add: default_segmenter_def init_def fresh_segment_def)
  have h: "map_of (segments ?s1) ''Alice'' = Some ?seg \<and> ''Goodbye'' \<noteq> [] \<and>
      40 - updated_at ?seg > force_split_gap_seconds ?s1"
    using h1 h2 by simp
  note t = update_force_split [of ?s1 "''Alice''" ?seg "''Goodbye''" 40 no_ratio 40 0 40 42 2 42]
  have a: "update no_ratio ?s1 ''Alice'' ''Goodbye'' 40 40 =
      ?s1\<lparr>completed := (if segment_text ?seg \<noteq> []
                           then completed ?s1 @ [(''Alice'', segment_text ?seg, updated_at ?seg)]
                           else completed ?s1),
           segments := AList.update ''Alice'' (fresh_segment ''Goodbye'' 40) (segments ?s1)\<rparr>"
    using t [THEN conjunct1] h by (rule mp)
  have c: "completed (update no_ratio ?s1 ''Alice'' ''Goodbye'' 40 40) = [(''Alice'', ''Hello'', 0)]"
    unfolding s1 using a [unfolded s1]
    by (simp add: fresh_segment_def st_frag default_segmenter_def init_def)
  have b: "flush_ready (update no_ratio ?s1 ''Alice'' ''Goodbye'' 40 40) 42
       = (default_segmenter, [(''Alice'', ''Hello'', 0), (''Alice'', ''Goodbye'', 40)])"
    using t [THEN conjunct2] unfolding Let_def by simp
  show ?thesis using h1 h2 c b by simp
qed

subsection \<open>Which drafts a flush tick takes\<close>

text \<open>The keys of a dictionary are distinct; the segmenter starts so and its two
  operations keep it so.\<close>

lemma distinct_update_segments:
  "distinct (map fst (segments self)) \<Longrightarrow>
   distinct (map fst (segments (update ratio self speaker text ts now)))"
  by (auto simp: update_def split_draft_def revise_draft_def Let_def distinct_update
      split: option.splits)

lemma distinct_flush_ready_segments:
  "distinct (map fst (segments self)) \<Longrightarrow>
   distinct (map fst (segments (fst (flush_ready self now))))"
  by (simp add: flush_ready_eq distinct_map_filter)

lemma distinct_init_segments:
  "distinct (map fst (segments (init mc idle mg mx rw fs)))"
  by (simp add: init_def)

lemma map_of_filter_absent:
  assumes "map_of xs k = None"
  shows "map_of (filter P xs) k = None"
proof -
  from assms have "k \<notin> fst ` set xs"
    by (simp add: map_of_eq_None_iff)
  then have "k \<notin> fst ` set (filter P xs)"
    by auto
  then show ?thesis
    by (simp add: map_of_eq_None_iff)
qed

lemma map_of_filter_present:
  assumes "distinct (map fst xs)" and "map_of xs k = Some v"
  shows "map_of (filter P xs) k = (if P (k, v) then Some v else None)"
  using assms
proof (induction xs)
  case Nil
  then show ?case by simp
next
  case (Cons x xs)
  obtain k' v' where x: "x = (k', v')" by (cases x)
  from Cons.prems have none: "map_of xs k' = None" and d: "distinct (map fst xs)"
    by (auto simp: x map_of_eq_None_iff)
  show ?case
  proof (cases "k = k'")
    case True
    with Cons.prems have "v = v'" by (simp add: x)
    with True none show ?thesis
      by (simp add: x map_of_filter_absent)
  next
    case False
    with Cons.prems have "map_of xs k = Some v" by (simp add: x)
    with False Cons.IH [OF d] show ?thesis
      by (simp add: x)
  qed
qed

lemma should_merge_grow:
  "cur \<noteq> [] \<Longrightarrow> prefix prev cur \<Longrightarrow> should_merge ratio prev cur"
  by (simp add: should_merge_def)

lemma update_grow:
  assumes "text \<noteq> []" "prefix (frag seg) text" "now - updated_at seg \<le> 8"
  shows "update ratio (default_segmenter\<lparr>segments := [(spk, seg)]\<rparr>) spk text ts now =
     default_segmenter\<lparr>segments := [(spk, seg\<lparr>frag := text, updated_at := now\<rparr>)]\<rparr>"
  using assms
  by (simp add: update_def default_segmenter_def init_def revise_draft_def should_merge_grow)

lemma strip_id:
  assumes "xs \<noteq> []" "\<not> isspace (hd xs)" "\<not> isspace (last xs)"
  shows "strip xs = xs"
proof -
  have l: "lstrip xs = xs"
    using assms by (cases xs) (simp_all add: lstrip_def)
  have "dropWhile isspace (rev xs) = rev xs"
    using assms by (cases "rev xs") (auto simp: last_rev [symmetric] hd_rev)
  then have "rstrip xs = xs" by (simp add: rstrip_def)
  with l show ?thesis by (simp add: strip_def)
qed

lemma strip_replicate_a: "strip (replicate (Suc n) CHR ''a'') = replicate (Suc n) CHR ''a''"
proof (rule strip_id)
  show "replicate (Suc n) CHR ''a'' \<noteq> []" by simp
  show "\<not> isspace (hd (replicate (Suc n) CHR ''a''))" by (simp add: char_simps)
  have "last (replicate (Suc n) CHR ''a'') = CHR ''a''"
    by (rule last_replicate) simp
  then show "\<not> isspace (last (replicate (Suc n) CHR ''a''))" by (simp add: char_simps)
qed

lemma revised_every_second_eq:
  "revised_every_second ratio n =
     default_segmenter\<lparr>segments :=
       [(''Alice'', \<lparr>combined = [], frag = replicate (Suc n) CHR ''a'', started_at = 0, updated_at = real n\<rparr>)]\<rparr>"
proof (induction n)
  case 0
  show ?case
    by (simp add: update_def default_segmenter_def init_def fresh_segment_def)
next
  case (Suc n)
  let ?seg = "\<lparr>combined = [], frag = replicate (Suc n) CHR ''a'', started_at = 0, updated_at = real n\<rparr>"
  have "replicate (Suc (Suc n)) CHR ''a'' = replicate (Suc n) CHR ''a'' @ ''a''"
    by (simp add: replicate_append_same)
  then have p: "prefix (frag ?seg) (replicate (Suc (Suc n)) CHR ''a'')"
    by (simp del: replicate_Suc)
  have ne: "replicate (Suc (Suc n)) CHR ''a'' \<noteq> []" by simp
  have gap: "real (Suc n) - updated_at ?seg \<le> 8" by simp
  have "revised_every_second ratio (Suc n) =
      update ratio (default_segmenter\<lparr>segments := [(''Alice'', ?seg)]\<rparr>) ''Alice''
        (replicate (Suc (Suc n)) CHR ''a'') (real (Suc n)) (real (Suc n))"
    by (simp only: revised_every_second.simps Suc.IH)
  also have "\<dots> = default_segmenter\<lparr>segments :=
      [(''Alice'', ?seg\<lparr>frag := replicate (Suc (Suc n)) CHR ''a'', updated_at := real (Suc n)\<rparr>)]\<rparr>"
    by (rule update_grow [OF ne p gap])
  finally show ?case by (simp del: replicate_Suc)
qed

lemma st_plan: "strip ''The plan is to ship'' = ''The plan is to ship''"
  by (simp add: strip_simps char_simps)

text \<open>
  Claim C4. On a flush tick with clock reading \<open>now\<close>, the drafts that remain are
  exactly those that are not ready, and the drafts handed over (after the ready queued
  fragments, in the order of the dictionary) are exactly those that are ready, where a
  draft is ready when it has had no update for \<^verbatim>\<open>idle_seconds\<close> or is
  \<^verbatim>\<open>max_segment_seconds\<close> old: a speaker's draft is gone after the tick if and only if
  it was ready. In particular, with the default tunables, a fragment revised every
  second (so that it is never idle at a tick) is left alone by every tick before its
  age reaches 20 seconds and is flushed by a tick from then on.
\<close>

theorem flush_ready_drafts:
  "(distinct (map fst (segments self)) \<longrightarrow>
      segments (fst (flush_ready self now)) =
        filter (\<lambda>item. \<not> draft_ready now (idle_seconds self) (max_segment_seconds self) (snd item))
          (segments self) \<and>
      snd (flush_ready self now) =
        filter (queued_ready now (idle_seconds self)) (completed self) @
        map flushed_draft
          (filter (\<lambda>item. draft_ready now (idle_seconds self) (max_segment_seconds self) (snd item))
             (segments self)) \<and>
      map_of (segments (fst (flush_ready self now))) spk =
        (case map_of (segments self) spk of
           None \<Rightarrow> None
         | Some seg \<Rightarrow>
             if draft_ready now (idle_seconds self) (max_segment_seconds self) seg then None
             else Some seg))
   \<and> (real n \<le> now1 \<and> now1 < real n + 2 \<longrightarrow>
         (now1 < 20 \<longrightarrow>
            flush_ready (revised_every_second ratio n) now1 = (revised_every_second ratio n, [])) \<and>
         (20 \<le> now1 \<longrightarrow>
            flush_ready (revised_every_second ratio n) now1 =
              (default_segmenter, [(''Alice'', replicate (Suc n) CHR ''a'', real n)])))"
proof -
  have general: "segments (fst (flush_ready self now)) =
        filter (\<lambda>item. \<not> draft_ready now (idle_seconds self) (max_segment_seconds self) (snd item))
          (segments self) \<and>
      snd (flush_ready self now) =
        filter (queued_ready now (idle_seconds self)) (completed self) @
        map flushed_draft
          (filter (\<lambda>item. draft_ready now (idle_seconds self) (max_segment_seconds self) (snd item))
             (segments self)) \<and>
      map_of (segments (fst (flush_ready self now))) spk =
        (case map_of (segments self) spk of
           None \<Rightarrow> None
         | Some seg \<Rightarrow>
             if draft_ready now (idle_seconds self) (max_segment_seconds self) seg then None
             else Some seg)"
    if d: "distinct (map fst (segments self))"
    by (simp add: flush_ready_eq [OF d] map_of_filter_absent map_of_filter_present [OF d]
        split: option.splits)
  have cap: "(now1 < 20 \<longrightarrow>
            flush_ready (revised_every_second ratio n) now1 = (revised_every_second ratio n, [])) \<and>
         (20 \<le> now1 \<longrightarrow>
            flush_ready (revised_every_second ratio n) now1 =
              (default_segmenter, [(''Alice'', replicate (Suc n) CHR ''a'', real n)]))"
    if "real n \<le> now1 \<and> now1 < real n + 2"
    using that unfolding revised_every_second_eq flush_one
    by (simp add: st_frag strip_replicate_a del: replicate_Suc replicate.simps)
  from general cap show ?thesis by blast
qed

theorem flush_ready_drafts_witness:
  "distinct (map fst (segments (default_segmenter\<lparr>segments :=
       [(''Alice'', \<lparr>combined = [], frag = ''The plan is to ship'', started_at = 0, updated_at = 19\<rparr>),
        (''Bob'', \<lparr>combined = [], frag = ''Hello'', started_at = 19, updated_at = 19\<rparr>)]\<rparr>)))
   \<and> segments (fst (flush_ready (default_segmenter\<lparr>segments :=
       [(''Alice'', \<lparr>combined = [], frag = ''The plan is to ship'', started_at = 0, updated_at = 19\<rparr>),
        (''Bob'', \<lparr>combined = [], frag = ''Hello'', started_at = 19, updated_at = 19\<rparr>)]\<rparr>) 20))
      = [(''Bob'', \<lparr>combined = [], frag = ''Hello'', started_at = 19, updated_at = 19\<rparr>)]
   \<and> snd (flush_ready (default_segmenter\<lparr>segments :=
       [(''Alice'', \<lparr>combined = [], frag = ''The plan is to ship'', started_at = 0, updated_at = 19\<rparr>),
        (''Bob'', \<lparr>combined = [], frag = ''Hello'', started_at = 19, updated_at = 19\<rparr>)]\<rparr>) 20)
      = [(''Alice'', ''The plan is to ship'', 19)]
   \<and> flush_ready (revised_every_second no_ratio 19) 20 =
        (default_segmenter, [(''Alice'', replicate (Suc 19) CHR ''a'', real 19)])"
proof -
  let ?self = "default_segmenter\<lparr>segments :=
       [(''Alice'', \<lparr>combined = [], frag = ''The plan is to ship'', started_at = 0, updated_at = 19\<rparr>),
        (''Bob'', \<lparr>combined = [], frag = ''Hello'', started_at = 19, updated_at = 19\<rparr>)]\<rparr>"
  have d: "distinct (map fst (segments ?self))" by simp
  note t0 = flush_ready_drafts [of ?self 20 "''Alice''" 19 20 no_ratio]
  note t = t0 [THEN conjunct1, THEN mp, OF d]
  have a: "segments (fst (flush_ready ?self 20)) =
      [(''Bob'', \<lparr>combined = [], frag = ''Hello'', started_at = 19, updated_at = 19\<rparr>)]"
    using t [THEN conjunct1]
    by (simp add: draft_ready_def default_segmenter_def init_def)
  have b: "snd (flush_ready ?self 20) = [(''Alice'', ''The plan is to ship'', 19)]"
    using t [THEN conjunct2, THEN conjunct1]
    by (simp add: draft_ready_def queued_ready_def flushed_draft_def default_segmenter_def init_def
        st_frag st_plan)
  have h: "real 19 \<le> 20 \<and> (20::real) < real 19 + 2" by simp
  have c: "flush_ready (revised_every_second no_ratio 19) 20 =
        (default_segmenter, [(''Alice'', replicate (Suc 19) CHR ''a'', real 19)])"
    using t0 [THEN conjunct2, THEN mp, OF h] by (rule conjunct2 [THEN mp]) simp
  show ?thesis using d a b c by blast
qed

subsection \<open>How long a queued fragment waits\<close>

lemma flush_ready_completed:
  "completed (fst (flush_ready self now)) =
     filter (\<lambda>c. \<not> queued_ready now (idle_seconds self) c) (completed self)"
  by (cases "completed self = []")
     (simp_all add: flush_ready_def flush_completed_filter split_beta)

lemma flush_ready_output:
  "snd (flush_ready self now) =
     filter (queued_ready now (idle_seconds self)) (completed self) @
     map flushed_draft
       (filter (\<lambda>item. draft_ready now (idle_seconds self) (max_segment_seconds self) (snd item))
          (segments self))"
  by (cases "completed self = []")
     (simp_all add: flush_ready_def flush_completed_filter split_beta flush_segments_to_flush)

lemma update_completed:
  "completed (update ratio self speaker text ts now) = completed self \<or>
   (case map_of (segments self) speaker of
      None \<Rightarrow> False
    | Some seg \<Rightarrow>
        completed (update ratio self speaker text ts now) =
          completed self @ [(speaker, segment_text seg, updated_at seg)])"
  by (simp add: update_def split_draft_def revise_draft_def Let_def split: option.splits)

text \<open>
  The claim as it is worded fails: the wait of a queued fragment is not measured from
  the moment of the split. With the default tunables, \<^verbatim>\<open>"Hello"\<close> drafted at 0 is split
  off and queued by \<^verbatim>\<open>"Goodbye"\<close> at 40, and a flush half a second later, well inside
  the idle window of 2 seconds after the split, already hands it over.
\<close>

theorem queued_wait_counterexample:
  "completed (update no_ratio default_segmenter ''Alice'' ''Hello'' 0 0) = []
   \<and> completed (update no_ratio (update no_ratio default_segmenter ''Alice'' ''Hello'' 0 0)
                  ''Alice'' ''Goodbye'' 40 40) = [(''Alice'', ''Hello'', 0)]
   \<and> 81 / 2 - 40 < idle_seconds default_segmenter
   \<and> snd (flush_ready (update no_ratio (update no_ratio default_segmenter ''Alice'' ''Hello'' 0 0)
                  ''Alice'' ''Goodbye'' 40 40) (81 / 2)) = [(''Alice'', ''Hello'', 0)]"
  unfolding hello_s1 goodbye_s2
  by (simp add: flush_ready_output queued_ready_def draft_ready_def default_segmenter_def init_def)

text \<open>
  Claim C6, amended. A fragment is queued with the last-update time of the draft it was
  split from (every entry that \<^verbatim>\<open>update\<close> adds to the queue is the replaced draft's
  text with that draft's \<^verbatim>\<open>updated_at\<close>), and \<^verbatim>\<open>flush_ready\<close> hands a queued fragment
  over exactly when \<open>now\<close> minus that time is at least \<^verbatim>\<open>idle_seconds\<close>: the ready ones
  leave the queue and head the result in queue order, the others stay. The idle window
  of a queued fragment therefore runs from its draft's last update, not from the split.
\<close>

theorem flush_ready_queue:
  "completed (fst (flush_ready self now)) =
     filter (\<lambda>c. \<not> queued_ready now (idle_seconds self) c) (completed self)
   \<and> snd (flush_ready self now) =
       filter (queued_ready now (idle_seconds self)) (completed self) @
       map flushed_draft
         (filter (\<lambda>item. draft_ready now (idle_seconds self) (max_segment_seconds self) (snd item))
            (segments self))
   \<and> (completed (update ratio self speaker text ts now') = completed self \<or>
       (case map_of (segments self) speaker of
          None \<Rightarrow> False
        | Some seg \<Rightarrow>
            completed (update ratio self speaker text ts now') =
              completed self @ [(speaker, segment_text seg, updated_at seg)]))"
  using flush_ready_completed [of self now] flush_ready_output [of self now]
    update_completed [of ratio self speaker "text" ts now']
  by (intro conjI)

theorem flush_ready_queue_witness:
  "completed (fst (flush_ready (default_segmenter\<lparr>completed := [(''Alice'', ''Hello'', 0), (''Bob'', ''Hi'', 39)]\<rparr>) 40))
     = [(''Bob'', ''Hi'', 39)]
   \<and> snd (flush_ready (default_segmenter\<lparr>completed := [(''Alice'', ''Hello'', 0), (''Bob'', ''Hi'', 39)]\<rparr>) 40)
     = [(''Alice'', ''Hello'', 0)]"
  using flush_ready_queue [of "default_segmenter\<lparr>completed := [(''Alice'', ''Hello'', 0), (''Bob'', ''Hi'', 39)]\<rparr>"
      40 no_ratio "''Alice''" "''x''" 0 40]
  by (simp add: queued_ready_def default_segmenter_def init_def)

subsection \<open>The event time stamp is not used\<close>

lemma set_alist_update: "set (AList.update k v al) \<subseteq> insert (k, v) (set al)"
  by (induction al) auto

lemma fold_fragment_stamps [simp]:
  "started_at (fold_fragment seg) = started_at seg" "updated_at (fold_fragment seg) = updated_at seg"
  by (simp_all add: fold_fragment_def Let_def)

lemma image_alist_update:
  "f ` snd ` set (AList.update k v al) \<subseteq> insert (f v) (f ` snd ` set al)"
proof -
  have "f ` snd ` set (AList.update k v al) \<subseteq> f ` snd ` insert (k, v) (set al)"
    by (intro image_mono set_alist_update)
  then show ?thesis by simp
qed

lemma image_alist_update_sub:
  assumes "f v \<in> B" "f ` snd ` set al \<subseteq> B"
  shows "f ` snd ` set (AList.update k v al) \<subseteq> B"
proof -
  have "insert (f v) (f ` snd ` set al) \<subseteq> B"
    using assms by simp
  with image_alist_update [of f k v al] show ?thesis
    by (rule order_trans)
qed

lemma stamps_split_draft:
  assumes "(speaker, seg) \<in> set (segments self)"
  shows "stamps (split_draft self speaker seg text now) \<subseteq> insert now (stamps self)"
proof -
  let ?new = "fresh_segment text now"
  have u: "updated_at seg \<in> stamps self"
    using assms by (force simp: stamps_def)
  have 1: "started_at ` snd ` set (AList.update speaker ?new (segments self))
      \<subseteq> insert now (stamps self)"
    by (rule image_alist_update_sub) (auto simp: stamps_def fresh_segment_def)
  have 2: "updated_at ` snd ` set (AList.update speaker ?new (segments self))
      \<subseteq> insert now (stamps self)"
    by (rule image_alist_update_sub) (auto simp: stamps_def fresh_segment_def)
  have 3: "(\<lambda>c. snd (snd c)) ` set (completed (split_draft self speaker seg text now))
      \<subseteq> insert now (stamps self)"
    using u by (auto simp: split_draft_def Let_def stamps_def)
  have "stamps (split_draft self speaker seg text now) =
      started_at ` snd ` set (AList.update speaker ?new (segments self))
      \<union> updated_at ` snd ` set (AList.update speaker ?new (segments self))
      \<union> (\<lambda>c. snd (snd c)) ` set (completed (split_draft self speaker seg text now))"
    by (simp add: stamps_def split_draft_def Let_def)
  then show ?thesis by (simp only: Un_subset_iff 1 2 3 simp_thms)
qed

lemma stamps_revise_draft:
  assumes "started_at seg' \<in> stamps self"
  shows "stamps (revise_draft self speaker seg' text now) \<subseteq> insert now (stamps self)"
proof -
  let ?new = "seg'\<lparr>frag := text, updated_at := now\<rparr>"
  have 1: "started_at ` snd ` set (AList.update speaker ?new (segments self))
      \<subseteq> insert now (stamps self)"
    by (rule image_alist_update_sub) (use assms in \<open>auto simp: stamps_def\<close>)
  have 2: "updated_at ` snd ` set (AList.update speaker ?new (segments self))
      \<subseteq> insert now (stamps self)"
    by (rule image_alist_update_sub) (auto simp: stamps_def)
  have "stamps (revise_draft self speaker seg' text now) =
      started_at ` snd ` set (AList.update speaker ?new (segments self))
      \<union> updated_at ` snd ` set (AList.update speaker ?new (segments self))
      \<union> (\<lambda>c. snd (snd c)) ` set (completed self)"
    by (simp add: stamps_def revise_draft_def)
  moreover have 3: "(\<lambda>c. snd (snd c)) ` set (completed self) \<subseteq> insert now (stamps self)"
    by (auto simp: stamps_def)
  ultimately show ?thesis by (simp only: Un_subset_iff 1 2 3 simp_thms)
qed

lemma stamps_update:
  "stamps (update ratio self speaker text ts now) \<subseteq> insert now (stamps self)"
proof (cases "text = []")
  case True
  then show ?thesis by (auto simp: update_def)
next
  case False
  show ?thesis
  proof (cases "map_of (segments self) speaker")
    case None
    let ?new = "fresh_segment text now"
    have eq: "update ratio self speaker text ts now =
        self\<lparr>segments := AList.update speaker ?new (segments self)\<rparr>"
      using False None by (simp add: update_def)
    have 1: "started_at ` snd ` set (AList.update speaker ?new (segments self))
        \<subseteq> insert now (stamps self)"
      by (rule image_alist_update_sub) (auto simp: stamps_def fresh_segment_def)
    have 2: "updated_at ` snd ` set (AList.update speaker ?new (segments self))
        \<subseteq> insert now (stamps self)"
      by (rule image_alist_update_sub) (auto simp: stamps_def fresh_segment_def)
    have 3: "(\<lambda>c. snd (snd c)) ` set (completed self) \<subseteq> insert now (stamps self)"
      by (auto simp: stamps_def)
    have "stamps (update ratio self speaker text ts now) =
      started_at ` snd ` set (AList.update speaker ?new (segments self))
      \<union> updated_at ` snd ` set (AList.update speaker ?new (segments self))
      \<union> (\<lambda>c. snd (snd c)) ` set (completed self)"
      by (simp add: eq stamps_def)
    then show ?thesis by (simp only: Un_subset_iff 1 2 3 simp_thms)
  next
    case (Some seg)
    then have mem: "(speaker, seg) \<in> set (segments self)"
      by (rule map_of_SomeD)
    then have st: "started_at seg \<in> stamps self"
      by (force simp: stamps_def)
    then have st': "started_at (fold_fragment seg) \<in> stamps self"
      by simp
    have "update ratio self speaker text ts now = split_draft self speaker seg text now
        \<or> update ratio self speaker text ts now = revise_draft self speaker seg text now
        \<or> update ratio self speaker text ts now = revise_draft self speaker (fold_fragment seg) text now"
      using False Some by (simp add: update_def Let_def)
    then show ?thesis
      using stamps_split_draft [OF mem, of "text" now]
        stamps_revise_draft [OF st, of speaker "text" now]
        stamps_revise_draft [OF st', of speaker "text" now]
      by (elim disjE) (simp_all only:)
  qed
qed

text \<open>
  Claim C9. \<^verbatim>\<open>update\<close> ignores its argument \<^verbatim>\<open>ts\<close>: two calls that differ only in
  \<^verbatim>\<open>ts\<close>, at the same clock reading \<open>now\<close>, give the same state (drafts and queue);
  and every time stamp held after the call is the clock reading or was held before, so
  no gap and no stored \<^verbatim>\<open>started_at\<close>, \<^verbatim>\<open>updated_at\<close> or queue time comes from the
  event.
\<close>

theorem update_ignores_ts:
  "update ratio self speaker text ts now = update ratio self speaker text ts' now
   \<and> stamps (update ratio self speaker text ts now) \<subseteq> insert now (stamps self)"
proof
  show "update ratio self speaker text ts now = update ratio self speaker text ts' now"
    by (simp only: update_def)
  show "stamps (update ratio self speaker text ts now) \<subseteq> insert now (stamps self)"
    by (rule stamps_update)
qed

theorem update_ignores_ts_witness:
  "update no_ratio (update no_ratio default_segmenter ''Alice'' ''Hello'' 0 0) ''Alice'' ''Goodbye'' 40 40
     = update no_ratio (update no_ratio default_segmenter ''Alice'' ''Hello'' 0 0) ''Alice'' ''Goodbye'' 7 40"
  using update_ignores_ts [of no_ratio "update no_ratio default_segmenter ''Alice'' ''Hello'' 0 0"
      "''Alice''" "''Goodbye''" 40 40 7]
  by (rule conjunct1)

subsection \<open>The dedup gate\<close>

lemma map_of_filter_keep:
  "map_of xs k = Some v \<Longrightarrow> P (k, v) \<Longrightarrow> map_of (filter P xs) k = Some v"
  by (induction xs) (auto split: if_splits)

lemma map_of_recorded:
  "map_of (if length (AList.update key now d) > 5000
           then prune (now - 120) (AList.update key now d)
           else AList.update key now d) key = Some now"
  by (simp add: prune_def update_conv' map_of_filter_keep)

lemma emit_final_dropped:
  assumes "strip text = [] \<or> suppressed st speaker text now"
  shows "emit_final st speaker text ts now = st"
  using assms
  by (auto simp: emit_final_def suppressed_def dedupe_key_def get_or_def Let_def split: option.splits)

lemma emit_final_emitted:
  assumes "strip text \<noteq> []" "\<not> suppressed st speaker text now"
  shows "sent (emit_final st speaker text ts now) = sent st @ [(strip speaker, strip text, ts)]"
    and "map_of (LAST_SENT (emit_final st speaker text ts now))
           (dedupe_key (strip speaker) (strip text)) = Some now"
    and "curr_by_speaker (emit_final st speaker text ts now) = curr_by_speaker st"
    and "emitted_last_by_speaker (emit_final st speaker text ts now) = emitted_last_by_speaker st"
proof -
  let ?key = "dedupe_key (strip speaker) (strip text)"
  let ?rec = "AList.update ?key now (LAST_SENT st)"
  have eq: "emit_final st speaker text ts now =
      st\<lparr>LAST_SENT := (if length ?rec > 5000 then prune (now - 120) ?rec else ?rec),
         sent := sent st @ [(strip speaker, strip text, ts)]\<rparr>"
    using assms
    by (auto simp: emit_final_def suppressed_def dedupe_key_def get_or_def Let_def split: option.splits)
  show "sent (emit_final st speaker text ts now) = sent st @ [(strip speaker, strip text, ts)]"
    by (simp add: eq)
  show "map_of (LAST_SENT (emit_final st speaker text ts now)) ?key = Some now"
    unfolding eq using map_of_recorded [of ?key now "LAST_SENT st"] by simp
  show "curr_by_speaker (emit_final st speaker text ts now) = curr_by_speaker st"
    by (simp add: eq)
  show "emitted_last_by_speaker (emit_final st speaker text ts now) = emitted_last_by_speaker st"
    by (simp add: eq)
qed

lemma emitted_iff:
  "sent (emit_final st speaker text ts now) \<noteq> sent st \<longleftrightarrow>
     strip text \<noteq> [] \<and> \<not> suppressed st speaker text now"
  using emit_final_dropped [of "text" st speaker now ts]
    emit_final_emitted(1) [of "text" st speaker now ts]
  by auto

lemma suppressed_after:
  assumes "map_of (LAST_SENT st) (dedupe_key (strip speaker) (strip text)) = Some t"
  shows "suppressed st speaker text now \<longleftrightarrow> now - t < DEDUP_WINDOW_SECONDS"
  using assms by (simp add: suppressed_def dedupe_key_def)

lemma strip_Alice [simp]: "strip ''Alice'' = ''Alice''"
  by (simp add: strip_simps char_simps)

lemma observer0_not_suppressed: "\<not> suppressed observer0 speaker text now"
  by (simp add: suppressed_def observer0_def)

text \<open>The keys of the table stay distinct, and an attempt touches no key but its
  own: another key keeps its time, or loses it to the sweep when that time is more than
  120 seconds old.\<close>

lemma distinct_LAST_SENT:
  assumes "distinct (map fst (LAST_SENT st))"
  shows "distinct (map fst (LAST_SENT (emit_final st speaker text ts now)))"
proof (cases "strip text = [] \<or> suppressed st speaker text now")
  case True
  then show ?thesis
    using assms by (simp add: emit_final_dropped)
next
  case False
  let ?rec = "AList.update (dedupe_key (strip speaker) (strip text)) now (LAST_SENT st)"
  have eq: "LAST_SENT (emit_final st speaker text ts now) =
      (if length ?rec > 5000 then prune (now - 120) ?rec else ?rec)"
    using False
    by (auto simp: emit_final_def suppressed_def dedupe_key_def get_or_def Let_def
        split: option.splits)
  have "distinct (map fst ?rec)"
    using assms by (rule distinct_update)
  then show ?thesis
    by (simp add: eq prune_def distinct_map_filter)
qed

lemma other_key_kept:
  assumes d: "distinct (map fst (LAST_SENT st))"
    and k: "key \<noteq> strip speaker @ ''|'' @ strip text"
  shows "map_of (LAST_SENT (emit_final st speaker text ts now)) key = map_of (LAST_SENT st) key \<or>
     (map_of (LAST_SENT (emit_final st speaker text ts now)) key = None \<and>
      (case map_of (LAST_SENT st) key of None \<Rightarrow> False | Some t \<Rightarrow> t < now - 120))"
proof (cases "strip text = [] \<or> suppressed st speaker text now")
  case True
  then have "emit_final st speaker text ts now = st"
    by (rule emit_final_dropped)
  then show ?thesis
    by simp
next
  case False
  then have em: "sent (emit_final st speaker text ts now) \<noteq> sent st"
    by (simp add: emitted_iff)
  let ?k = "dedupe_key (strip speaker) (strip text)"
  let ?rec = "AList.update ?k now (LAST_SENT st)"
  have eq: "LAST_SENT (emit_final st speaker text ts now) =
      (if length ?rec > 5000 then prune (now - 120) ?rec else ?rec)"
    using False
    by (auto simp: emit_final_def suppressed_def dedupe_key_def get_or_def Let_def
        split: option.splits)
  have dr: "distinct (map fst ?rec)"
    using d by (rule distinct_update)
  have r: "map_of ?rec key = map_of (LAST_SENT st) key"
    using k by (simp add: update_conv' dedupe_key_def)
  show ?thesis
  proof (cases "length ?rec > 5000")
    case False
    then show ?thesis
      using r by (simp add: eq)
  next
    case long: True
    then have eq': "LAST_SENT (emit_final st speaker text ts now) = prune (now - 120) ?rec"
      by (simp add: eq)
    show ?thesis
    proof (cases "map_of (LAST_SENT st) key")
      case None
      then have "map_of (prune (now - 120) ?rec) key = None"
        using r by (simp add: prune_def map_of_filter_absent)
      with None show ?thesis by (simp add: eq')
    next
      case (Some t)
      then have "map_of (prune (now - 120) ?rec) key = (if \<not> t < now - 120 then Some t else None)"
        using r map_of_filter_present [OF dr, of key t "\<lambda>(k, v). \<not> v < now - 120"]
        by (simp add: prune_def)
      with Some show ?thesis
        by (simp add: eq')
    qed
  qed
qed


lemma other_pair_suppressed:
  assumes d: "distinct (map fst (LAST_SENT st))"
    and k: "strip speaker' @ ''|'' @ strip text' \<noteq> strip speaker @ ''|'' @ strip text"
    and m: "now \<le> now'"
  shows "suppressed (emit_final st speaker text ts now) speaker' text' now' =
         suppressed st speaker' text' now'"
proof -
  let ?key = "strip speaker' @ ''|'' @ strip text'"
  from other_key_kept [OF d k, of ts now]
  consider "map_of (LAST_SENT (emit_final st speaker text ts now)) ?key = map_of (LAST_SENT st) ?key"
    | t where "map_of (LAST_SENT (emit_final st speaker text ts now)) ?key = None"
        "map_of (LAST_SENT st) ?key = Some t" "t < now - 120"
    by (auto split: option.splits)
  then show ?thesis
  proof cases
    case 1
    then show ?thesis by (simp add: suppressed_def)
  next
    case 2
    with m have "\<not> now' - t < DEDUP_WINDOW_SECONDS"
      by (simp add: DEDUP_WINDOW_SECONDS_def)
    with 2 show ?thesis by (simp add: suppressed_def)
  qed
qed


lemma strip_Bob [simp]: "strip ''Bob'' = ''Bob''" "strip ''Bye'' = ''Bye''"
  by (simp_all add: strip_simps char_simps)

text \<open>
  Claim C8. The key of an attempt is the stripped speaker, a bar and the stripped text.
  An attempt whose key was emitted within the last \<^verbatim>\<open>DEDUP_WINDOW_SECONDS\<close> is dropped
  and leaves the state as it was; any other attempt with non-blank text is emitted once
  and its key recorded with the current time. So when a pair is emitted and the same
  pair is attempted again less than \<^verbatim>\<open>DEDUP_WINDOW_SECONDS\<close> after, the second attempt
  is dropped: the two attempts give one emission. An attempt changes nothing for a pair
  with another key: at any later clock reading that pair is suppressed exactly when it
  was before.
\<close>

theorem emit_final_dedup:
  "(strip text \<noteq> [] \<and> suppressed st speaker text now \<longrightarrow>
      emit_final st speaker text ts now = st)
   \<and> (strip text \<noteq> [] \<and> \<not> suppressed st speaker text now \<longrightarrow>
      sent (emit_final st speaker text ts now) = sent st @ [(strip speaker, strip text, ts)] \<and>
      map_of (LAST_SENT (emit_final st speaker text ts now))
        (strip speaker @ ''|'' @ strip text) = Some now)
   \<and> (sent (emit_final st speaker text ts1 t1) \<noteq> sent st \<and> t2 - t1 < DEDUP_WINDOW_SECONDS \<longrightarrow>
      emit_final (emit_final st speaker text ts1 t1) speaker text ts2 t2
        = emit_final st speaker text ts1 t1 \<and>
      sent (emit_final (emit_final st speaker text ts1 t1) speaker text ts2 t2)
        = sent st @ [(strip speaker, strip text, ts1)])
   \<and> (distinct (map fst (LAST_SENT st)) \<and>
       strip speaker' @ ''|'' @ strip text' \<noteq> strip speaker @ ''|'' @ strip text \<and>
       now \<le> now' \<longrightarrow>
      suppressed (emit_final st speaker text ts now) speaker' text' now'
        = suppressed st speaker' text' now')"
proof (intro conjI impI)
  assume "strip text \<noteq> [] \<and> suppressed st speaker text now"
  then show "emit_final st speaker text ts now = st"
    by (simp add: emit_final_dropped)
next
  assume a: "strip text \<noteq> [] \<and> \<not> suppressed st speaker text now"
  then show "sent (emit_final st speaker text ts now) = sent st @ [(strip speaker, strip text, ts)]"
    by (simp add: emit_final_emitted(1))
  from a show "map_of (LAST_SENT (emit_final st speaker text ts now))
        (strip speaker @ ''|'' @ strip text) = Some now"
    using emit_final_emitted(2) [of "text" st speaker now ts] by (simp add: dedupe_key_def)
next
  assume a: "sent (emit_final st speaker text ts1 t1) \<noteq> sent st \<and> t2 - t1 < DEDUP_WINDOW_SECONDS"
  let ?st1 = "emit_final st speaker text ts1 t1"
  from a have ne: "strip text \<noteq> []" and ns: "\<not> suppressed st speaker text t1"
    by (simp_all add: emitted_iff)
  have "suppressed ?st1 speaker text t2"
    using a emit_final_emitted(2) [OF ne ns, of ts1] by (simp add: suppressed_after)
  then show second: "emit_final ?st1 speaker text ts2 t2 = ?st1"
    by (simp add: emit_final_dropped)
  show "sent (emit_final ?st1 speaker text ts2 t2) = sent st @ [(strip speaker, strip text, ts1)]"
    unfolding second by (rule emit_final_emitted(1) [OF ne ns])
next
  assume "distinct (map fst (LAST_SENT st)) \<and>
       strip speaker' @ ''|'' @ strip text' \<noteq> strip speaker @ ''|'' @ strip text \<and>
       now \<le> now'"
  then show "suppressed (emit_final st speaker text ts now) speaker' text' now'
        = suppressed st speaker' text' now'"
    by (simp add: other_pair_suppressed)
qed

theorem emit_final_dedup_witness:
  "sent (emit_final observer0 ''Alice'' ''Hello'' 0 0) \<noteq> sent observer0
   \<and> 1 - 0 < DEDUP_WINDOW_SECONDS
   \<and> sent (emit_final (emit_final observer0 ''Alice'' ''Hello'' 0 0) ''Alice'' ''Hello'' 1 1)
       = [(''Alice'', ''Hello'', 0)]
   \<and> strip ''Bob'' @ ''|'' @ strip ''Bye'' \<noteq> strip ''Alice'' @ ''|'' @ strip ''Hello''
   \<and> sent (emit_final (emit_final observer0 ''Alice'' ''Hello'' 0 0) ''Bob'' ''Bye'' 1 1)
       = [(''Alice'', ''Hello'', 0), (''Bob'', ''Bye'', 1)]"
proof -
  let ?st1 = "emit_final observer0 ''Alice'' ''Hello'' 0 0"
  have ne: "strip ''Hello'' \<noteq> []" by simp
  have e: "sent ?st1 \<noteq> sent observer0"
    using ne observer0_not_suppressed by (simp add: emitted_iff)
  have w: "(1::real) - 0 < DEDUP_WINDOW_SECONDS"
    by (simp add: DEDUP_WINDOW_SECONDS_def)
  have h: "sent ?st1 \<noteq> sent observer0 \<and> 1 - 0 < DEDUP_WINDOW_SECONDS"
    using e w by simp
  note t = emit_final_dedup
  have same: "sent (emit_final ?st1 ''Alice'' ''Hello'' 1 1) = [(''Alice'', ''Hello'', 0)]"
    using t [where st = observer0 and speaker = "''Alice''" and ?text = "''Hello''"
        and ?ts1.0 = 0 and ?t1.0 = 0 and ?ts2.0 = 1 and ?t2.0 = 1,
        THEN conjunct2, THEN conjunct2, THEN conjunct1, THEN mp, OF h, THEN conjunct2]
    by (simp add: observer0_def)
  have k: "strip ''Bob'' @ ''|'' @ strip ''Bye'' \<noteq> strip ''Alice'' @ ''|'' @ strip ''Hello''"
    by simp
  have h4: "distinct (map fst (LAST_SENT observer0)) \<and>
       strip ''Bob'' @ ''|'' @ strip ''Bye'' \<noteq> strip ''Alice'' @ ''|'' @ strip ''Hello'' \<and>
       (0::real) \<le> 1"
    using k by (simp add: observer0_def)
  have "suppressed ?st1 ''Bob'' ''Bye'' 1 = suppressed observer0 ''Bob'' ''Bye'' 1"
    using t [where st = observer0 and speaker = "''Alice''" and ?text = "''Hello''"
        and ts = 0 and now = 0 and speaker' = "''Bob''" and text' = "''Bye''" and now' = 1,
        THEN conjunct2, THEN conjunct2, THEN conjunct2, THEN mp, OF h4] .
  then have ns: "\<not> suppressed ?st1 ''Bob'' ''Bye'' 1"
    by (simp add: observer0_not_suppressed)
  have h2: "strip ''Bye'' \<noteq> [] \<and> \<not> suppressed ?st1 ''Bob'' ''Bye'' 1"
    using ns by simp
  have s1: "sent ?st1 = [(''Alice'', ''Hello'', 0)]"
    using emit_final_emitted(1) [OF ne observer0_not_suppressed, of "''Alice''" 0 0]
    by (simp add: observer0_def)
  have other: "sent (emit_final ?st1 ''Bob'' ''Bye'' 1 1) = [(''Alice'', ''Hello'', 0), (''Bob'', ''Bye'', 1)]"
    using t [where st = ?st1 and speaker = "''Bob''" and ?text = "''Bye''" and ts = 1 and now = 1,
        THEN conjunct2, THEN conjunct1, THEN mp, OF h2, THEN conjunct1]
    by (simp add: s1)
  from e w same k other show ?thesis by simp
qed

text \<open>
  Claim C10. A dropped attempt does not refresh the recorded time of its key. When a
  pair is emitted at \<open>t1\<close>, attempted again at \<open>t2\<close> inside the window (dropped) and
  again at \<open>t3\<close> with \<open>t3 - t1\<close> at least \<^verbatim>\<open>DEDUP_WINDOW_SECONDS\<close>, the key still
  carries \<open>t1\<close> after the second attempt and the third attempt is emitted, however
  close \<open>t3\<close> is to \<open>t2\<close>.
\<close>

theorem dropped_attempt_keeps_stamp:
  "sent (emit_final st speaker text ts1 t1) \<noteq> sent st \<and>
   t2 - t1 < DEDUP_WINDOW_SECONDS \<and> DEDUP_WINDOW_SECONDS \<le> t3 - t1 \<longrightarrow>
     (let st1 = emit_final st speaker text ts1 t1;
          st2 = emit_final st1 speaker text ts2 t2;
          st3 = emit_final st2 speaker text ts3 t3
      in sent st2 = sent st1 \<and>
         map_of (LAST_SENT st2) (dedupe_key (strip speaker) (strip text)) = Some t1 \<and>
         sent st3 = sent st @ [(strip speaker, strip text, ts1), (strip speaker, strip text, ts3)] \<and>
         map_of (LAST_SENT st3) (dedupe_key (strip speaker) (strip text)) = Some t3)"
proof
  assume a: "sent (emit_final st speaker text ts1 t1) \<noteq> sent st \<and>
   t2 - t1 < DEDUP_WINDOW_SECONDS \<and> DEDUP_WINDOW_SECONDS \<le> t3 - t1"
  let ?key = "dedupe_key (strip speaker) (strip text)"
  let ?st1 = "emit_final st speaker text ts1 t1"
  let ?st2 = "emit_final ?st1 speaker text ts2 t2"
  let ?st3 = "emit_final ?st2 speaker text ts3 t3"
  from a have ne: "strip text \<noteq> []" and ns: "\<not> suppressed st speaker text t1"
    by (simp_all add: emitted_iff)
  have k1: "map_of (LAST_SENT ?st1) ?key = Some t1"
    by (rule emit_final_emitted(2) [OF ne ns])
  have s1: "sent ?st1 = sent st @ [(strip speaker, strip text, ts1)]"
    by (rule emit_final_emitted(1) [OF ne ns])
  have "suppressed ?st1 speaker text t2"
    using a k1 by (simp add: suppressed_after)
  then have second: "?st2 = ?st1"
    by (simp add: emit_final_dropped)
  have ns3: "\<not> suppressed ?st2 speaker text t3"
    using a k1 unfolding second by (simp add: suppressed_after)
  have s3: "sent ?st3 = sent ?st2 @ [(strip speaker, strip text, ts3)]"
    by (rule emit_final_emitted(1) [OF ne ns3])
  have k3: "map_of (LAST_SENT ?st3) ?key = Some t3"
    by (rule emit_final_emitted(2) [OF ne ns3])
  show "let st1 = emit_final st speaker text ts1 t1;
          st2 = emit_final st1 speaker text ts2 t2;
          st3 = emit_final st2 speaker text ts3 t3
      in sent st2 = sent st1 \<and>
         map_of (LAST_SENT st2) (dedupe_key (strip speaker) (strip text)) = Some t1 \<and>
         sent st3 = sent st @ [(strip speaker, strip text, ts1), (strip speaker, strip text, ts3)] \<and>
         map_of (LAST_SENT st3) (dedupe_key (strip speaker) (strip text)) = Some t3"
    unfolding Let_def using k1 s1 s3 k3 by (simp add: second)
qed

theorem dropped_attempt_keeps_stamp_witness:
  "sent (emit_final observer0 ''Alice'' ''Hello'' 0 0) \<noteq> sent observer0
   \<and> 3 / 2 - 0 < DEDUP_WINDOW_SECONDS \<and> DEDUP_WINDOW_SECONDS \<le> 5 / 2 - 0
   \<and> 5 / 2 - 3 / 2 < DEDUP_WINDOW_SECONDS
   \<and> sent (emit_final (emit_final (emit_final observer0 ''Alice'' ''Hello'' 0 0)
              ''Alice'' ''Hello'' (3 / 2) (3 / 2)) ''Alice'' ''Hello'' (5 / 2) (5 / 2))
       = [(''Alice'', ''Hello'', 0), (''Alice'', ''Hello'', 5 / 2)]"
proof -
  have ne: "strip ''Hello'' \<noteq> []" by simp
  have e: "sent (emit_final observer0 ''Alice'' ''Hello'' 0 0) \<noteq> sent observer0"
    using ne observer0_not_suppressed by (simp add: emitted_iff)
  have w: "(3 / 2 :: real) - 0 < DEDUP_WINDOW_SECONDS" "DEDUP_WINDOW_SECONDS \<le> 5 / 2 - 0"
    "(5 / 2 :: real) - 3 / 2 < DEDUP_WINDOW_SECONDS"
    by (simp_all add: DEDUP_WINDOW_SECONDS_def)
  have h: "sent (emit_final observer0 ''Alice'' ''Hello'' 0 0) \<noteq> sent observer0 \<and>
      3 / 2 - 0 < DEDUP_WINDOW_SECONDS \<and> DEDUP_WINDOW_SECONDS \<le> 5 / 2 - 0"
    using e w by simp
  note t = dropped_attempt_keeps_stamp [of observer0 "''Alice''" "''Hello''" 0 0 "3 / 2" "5 / 2"
      "3 / 2" "5 / 2", THEN mp, OF h]
  have "sent (emit_final (emit_final (emit_final observer0 ''Alice'' ''Hello'' 0 0)
              ''Alice'' ''Hello'' (3 / 2) (3 / 2)) ''Alice'' ''Hello'' (5 / 2) (5 / 2))
       = [(''Alice'', ''Hello'', 0), (''Alice'', ''Hello'', 5 / 2)]"
    using t unfolding Let_def by (simp add: observer0_def)
  with e w show ?thesis by simp
qed

subsection \<open>White space, stripping and \<^verbatim>\<open>_prefix_len\<close>\<close>

lemma isspace_lower_char: "isspace (lower_char c) = isspace c"
proof -
  let ?n = "of_char c :: nat"
  show ?thesis
  proof (cases "(65 \<le> ?n \<and> ?n \<le> 90) \<or> (192 \<le> ?n \<and> ?n \<le> 214) \<or> (216 \<le> ?n \<and> ?n \<le> 222)")
    case True
    then have "?n + 32 < 256" by auto
    then have "(of_char (char_of (?n + 32)) :: nat) = ?n + 32"
      by simp
    moreover have "lower_char c = char_of (?n + 32)"
      using True by (simp add: lower_char_def Let_def)
    ultimately have "(of_char (lower_char c) :: nat) = ?n + 32"
      by simp
    with True show ?thesis
      by (auto simp: isspace_def Let_def)
  next
    case False
    then have "lower_char c = c"
      by (auto simp: lower_char_def Let_def)
    then show ?thesis by simp
  qed
qed

lemma skip_space_eq: "skip_space a i = i + length (takeWhile isspace (drop i a))"
proof (induction a i rule: skip_space.induct)
  case (1 a i)
  show ?case
  proof (cases "i < length a \<and> isspace (a ! i)")
    case True
    then have d: "drop i a = a ! i # drop (Suc i) a"
      by (simp add: Cons_nth_drop_Suc)
    have "skip_space a i = skip_space a (Suc i)"
      using True by (subst skip_space.simps) simp
    also have "\<dots> = Suc i + length (takeWhile isspace (drop (Suc i) a))"
      using 1 True by simp
    finally show ?thesis
      using True by (simp add: d)
  next
    case False
    then have s: "skip_space a i = i"
      by (subst skip_space.simps) auto
    show ?thesis
    proof (cases "i < length a")
      case True
      with False have "\<not> isspace (a ! i)" by simp
      moreover from True have "drop i a = a ! i # drop (Suc i) a"
        by (simp add: Cons_nth_drop_Suc)
      ultimately show ?thesis by (simp add: s)
    next
      case False
      then show ?thesis by (simp add: s)
    qed
  qed
qed

lemma drop_skip_space: "drop (skip_space a i) a = dropWhile isspace (drop i a)"
proof -
  have "drop (skip_space a i) a = drop (length (takeWhile isspace (drop i a))) (drop i a)"
    by (simp add: skip_space_eq add.commute)
  then show ?thesis
    by (simp add: dropWhile_eq_drop)
qed

lemma strip_dropWhile: "strip (dropWhile isspace xs) = strip xs"
  by (simp add: strip_def lstrip_def)

lemma lower_char_space_neq:
  assumes "\<not> isspace x" "isspace y"
  shows "lower_char x \<noteq> lower_char y"
  using assms isspace_lower_char [of x] isspace_lower_char [of y] by auto

lemma isspace_blank: "isspace CHR '' ''"
  by (simp add: isspace_def)

lemma prefix_len_loop_no_space:
  assumes "\<forall>c \<in> set a. \<not> isspace c"
  shows "strip (drop (prefix_len_loop a b i j) b) =
         strip (drop (j + common_prefix_ci (drop i a) (drop j b)) b)"
  using assms
proof (induction a b i j rule: prefix_len_loop.induct)
  case (1 a b i j)
  show ?case
  proof (cases "i < length a \<and> j < length b")
    case False
    then have "prefix_len_loop a b i j = j"
      by (subst prefix_len_loop.simps) auto
    moreover from False have "drop i a = [] \<or> drop j b = []"
      by auto
    then have "common_prefix_ci (drop i a) (drop j b) = 0"
      by (cases "drop i a") auto
    ultimately show ?thesis by simp
  next
    case True
    then have da: "drop i a = a ! i # drop (Suc i) a" and db: "drop j b = b ! j # drop (Suc j) b"
      by (simp_all add: Cons_nth_drop_Suc)
    from True "1.prems" have nsa: "\<not> isspace (a ! i)"
      by simp
    show ?thesis
    proof (cases "isspace (b ! j)")
      case sp: True
      have neq: "lower_char (a ! i) \<noteq> lower_char (CHR '' '')"
        by (rule lower_char_space_neq [OF nsa isspace_blank])
      have "prefix_len_loop a b i j = skip_space b j"
        using True nsa sp neq by (subst prefix_len_loop.simps) (simp add: Let_def)
      then have l: "strip (drop (prefix_len_loop a b i j) b) = strip (drop j b)"
        by (simp add: drop_skip_space strip_dropWhile)
      have "lower_char (a ! i) \<noteq> lower_char (b ! j)"
        by (rule lower_char_space_neq [OF nsa sp])
      then have "common_prefix_ci (drop i a) (drop j b) = 0"
        by (simp add: da db)
      with l show ?thesis by simp
    next
      case nsb: False
      show ?thesis
      proof (cases "lower_char (a ! i) = lower_char (b ! j)")
        case eq: True
        have step: "prefix_len_loop a b i j = prefix_len_loop a b (Suc i) (Suc j)"
          using True nsa nsb eq by (subst prefix_len_loop.simps) (simp add: Let_def)
        have ih: "strip (drop (prefix_len_loop a b (Suc i) (Suc j)) b) =
            strip (drop (Suc j + common_prefix_ci (drop (Suc i) a) (drop (Suc j) b)) b)"
          using "1.IH" [OF True refl refl refl refl] nsa nsb eq "1.prems" by simp
        have "common_prefix_ci (drop i a) (drop j b) =
            Suc (common_prefix_ci (drop (Suc i) a) (drop (Suc j) b))"
          using eq by (simp add: da db)
        with step ih show ?thesis by simp
      next
        case ne: False
        have "prefix_len_loop a b i j = j"
          using True nsa nsb ne by (subst prefix_len_loop.simps) (simp add: Let_def)
        moreover have "common_prefix_ci (drop i a) (drop j b) = 0"
          using ne by (simp add: da db)
        ultimately show ?thesis by simp
      qed
    qed
  qed
qed

lemma delta_of_no_space:
  assumes "prev \<noteq> []" "\<forall>c \<in> set prev. \<not> isspace c"
  shows "delta_of prev cur = strip (drop (common_prefix_ci prev cur) cur)"
  using assms prefix_len_loop_no_space [of prev cur 0 0]
  by (simp add: delta_of_def prefix_len_def)

lemma skip_space_inside:
  assumes "i < length a" "\<not> isspace (last a)"
  shows "skip_space a i < length a"
proof -
  from assms(1) have ne: "drop i a \<noteq> []" by simp
  then have "last (drop i a) = last a"
    using assms(1) by (simp add: last_drop)
  with assms(2) ne have "\<exists>x \<in> set (drop i a). \<not> isspace x"
    by (metis last_in_set)
  then have "takeWhile isspace (drop i a) \<noteq> drop i a"
    by (simp add: takeWhile_eq_all_conv)
  then have "length (takeWhile isspace (drop i a)) \<noteq> length (drop i a)"
    by (metis takeWhile_eq_take take_all order_refl)
  with length_takeWhile_le [of isspace "drop i a"]
  have "length (takeWhile isspace (drop i a)) < length a - i"
    by simp
  then show ?thesis
    using assms(1) by (simp add: skip_space_eq)
qed

lemma skip_space_append:
  assumes "i < length a" "\<not> isspace (last a)"
  shows "skip_space (a @ r) i = skip_space a i"
proof -
  from assms(1) have ne: "drop i a \<noteq> []" by simp
  then have "last (drop i a) = last a"
    using assms(1) by (simp add: last_drop)
  with assms(2) ne obtain x where x: "x \<in> set (drop i a)" "\<not> isspace x"
    by (metis last_in_set)
  have "drop i (a @ r) = drop i a @ r"
    using assms(1) by simp
  then have "takeWhile isspace (drop i (a @ r)) = takeWhile isspace (drop i a)"
    using x by simp
  then show ?thesis
    by (simp only: skip_space_eq)
qed

lemma prefix_len_loop_extension:
  assumes "\<not> isspace (last a)" "i \<le> length a"
  shows "prefix_len_loop a (a @ r) i i = length a"
  using assms(2)
proof (induction "length a - i" arbitrary: i rule: less_induct)
  case less
  show ?case
  proof (cases "i < length a")
    case False
    with less.prems have "i = length a" by simp
    then show ?thesis
      by (subst prefix_len_loop.simps) simp
  next
    case True
    then have same: "(a @ r) ! i = a ! i"
      by (simp add: nth_append)
    let ?i' = "if isspace (a ! i) then skip_space a i else i"
    have i': "?i' < length a"
      using True skip_space_inside [OF True assms(1)] by simp
    have ge: "i \<le> ?i'"
      by (simp add: skip_space_eq)
    have j': "(if isspace ((a @ r) ! i) then skip_space (a @ r) i else i) = ?i'"
      using skip_space_append [OF True assms(1), of r] by (simp add: same)
    have step: "prefix_len_loop a (a @ r) i i = prefix_len_loop a (a @ r) (Suc ?i') (Suc ?i')"
      using True j' by (subst prefix_len_loop.simps) (simp add: Let_def same)
    have "prefix_len_loop a (a @ r) (Suc ?i') (Suc ?i') = length a"
      using i' ge True by (intro less.hyps) auto
    with step show ?thesis by simp
  qed
qed

lemma delta_of_extension:
  assumes "prev \<noteq> []" "\<not> isspace (last prev)"
  shows "delta_of prev (prev @ rest) = strip rest"
  using assms prefix_len_loop_extension [of prev 0 rest]
  by (simp add: delta_of_def prefix_len_def)

lemma strip_ends:
  assumes "strip xs \<noteq> []"
  shows "\<not> isspace (hd (strip xs))" and "\<not> isspace (last (strip xs))"
proof -
  let ?zs = "dropWhile isspace xs"
  let ?ws = "dropWhile isspace (rev ?zs)"
  have s: "strip xs = rev ?ws"
    by (simp add: strip_def lstrip_def rstrip_def)
  with assms have ws: "?ws \<noteq> []" by simp
  then have "\<not> isspace (hd ?ws)"
    by (rule hd_dropWhile)
  then show "\<not> isspace (last (strip xs))"
    using ws by (simp add: s last_rev)
  have "rev ?zs = takeWhile isspace (rev ?zs) @ ?ws"
    by simp
  then have "?zs = rev ?ws @ rev (takeWhile isspace (rev ?zs))"
    by (metis rev_append rev_rev_ident)
  then have z: "?zs = strip xs @ rev (takeWhile isspace (rev ?zs))"
    by (simp only: s)
  with assms have "hd ?zs = hd (strip xs)"
    by (metis hd_append2)
  moreover from z assms have "?zs \<noteq> []"
    by (metis Nil_is_append_conv)
  then have "\<not> isspace (hd ?zs)"
    by (rule hd_dropWhile)
  ultimately show "\<not> isspace (hd (strip xs))"
    by simp
qed

lemma strip_idem: "strip (strip xs) = strip xs"
proof (cases "strip xs = []")
  case True
  have "strip [] = []"
    by (simp add: strip_def lstrip_def rstrip_def)
  then show ?thesis
    by (simp only: True)
next
  case False
  then show ?thesis
    by (intro strip_id strip_ends)
qed

lemma emit_speaker_long:
  assumes "2 \<le> length (delta_of (get_or (emitted_last_by_speaker st) speaker []) cur)"
  shows "emit_speaker now clock (speaker, cur) st =
     (emit_final st speaker (delta_of (get_or (emitted_last_by_speaker st) speaker []) cur) now (clock speaker))
       \<lparr>emitted_last_by_speaker := AList.update speaker cur (emitted_last_by_speaker st)\<rparr>"
proof -
  from assms have "delta_of (get_or (emitted_last_by_speaker st) speaker []) cur \<noteq> []"
    by auto
  with assms show ?thesis
    by (simp add: emit_speaker_def Let_def)
qed

lemma emit_speaker_short:
  assumes "length (delta_of (get_or (emitted_last_by_speaker st) speaker []) cur) < 2"
  shows "emit_speaker now clock (speaker, cur) st =
     st\<lparr>emitted_last_by_speaker :=
          AList.update speaker
            (if get_or (emitted_last_by_speaker st) speaker [] \<noteq> []
             then get_or (emitted_last_by_speaker st) speaker [] else cur)
            (emitted_last_by_speaker st)\<rparr>"
  using assms by (simp add: emit_speaker_def Let_def)

subsection \<open>The delta of a round\<close>

text \<open>Where the previous text has no white space, and where the new snapshot extends
  a previous text that does not end in white space, the delta of the code is the delta
  of the specification, stripped.\<close>

lemma spec_prefix_len_no_space:
  assumes "\<forall>c \<in> set a. \<not> isspace c"
  shows "spec_prefix_len a b = common_prefix_ci a b"
  using assms
proof (induction a b rule: common_prefix_ci.induct)
  case (1 x xs y ys)
  then have nx: "\<not> isspace x" by simp
  show ?case
  proof (cases "isspace y")
    case True
    then have "lower_char x \<noteq> lower_char y"
      by (rule lower_char_space_neq [OF nx])
    with nx True show ?thesis by simp
  next
    case False
    with nx 1 show ?thesis by simp
  qed
next
  case (2 ys)
  then show ?case by simp
next
  case (3 xs)
  then show ?case by (cases xs) simp_all
qed

lemma delta_of_spec_no_space:
  assumes "prev \<noteq> []" "\<forall>c \<in> set prev. \<not> isspace c"
  shows "delta_of prev cur = strip (spec_delta prev cur)"
  using assms by (simp add: delta_of_no_space spec_prefix_len_no_space spec_delta_def)

lemma spec_prefix_len_extension:
  assumes "a = [] \<or> \<not> isspace (last a)"
  shows "spec_prefix_len a (a @ r) = length a"
  using assms
proof (induction "length a" arbitrary: a rule: less_induct)
  case less
  show ?case
  proof (cases a)
    case Nil
    then show ?thesis by simp
  next
    case (Cons x xs)
    show ?thesis
    proof (cases "isspace x")
      case True
      with less.prems Cons have ne: "xs \<noteq> []" and lx: "\<not> isspace (last xs)"
        by (auto split: if_splits)
      then have ex: "last xs \<in> set xs" "\<not> isspace (last xs)"
        by simp_all
      let ?xs' = "dropWhile isspace xs"
      have tw: "takeWhile isspace (xs @ r) = takeWhile isspace xs"
        using ex by (rule takeWhile_append1)
      have dw: "dropWhile isspace (xs @ r) = ?xs' @ r"
        using ex by (rule dropWhile_append1)
      have ne': "?xs' \<noteq> []"
        using ex by (auto simp: dropWhile_eq_Nil_conv)
      have "xs = takeWhile isspace xs @ ?xs'"
        by simp
      then have "last xs = last ?xs'"
        using ne' by (metis last_appendR)
      with lx have l': "?xs' = [] \<or> \<not> isspace (last ?xs')"
        by simp
      have len: "length ?xs' < length a"
        using Cons length_dropWhile_le [of isspace xs] by simp
      have ih: "spec_prefix_len ?xs' (?xs' @ r) = length ?xs'"
        using less.hyps [OF len l'] .
      have "length (takeWhile isspace xs) + length ?xs' = length xs"
        by (metis length_append takeWhile_dropWhile_id)
      then show ?thesis
        using True by (simp add: Cons tw dw ih)
    next
      case False
      with less.prems Cons have l': "xs = [] \<or> \<not> isspace (last xs)"
        by (auto split: if_splits)
      have ih: "spec_prefix_len xs (xs @ r) = length xs"
        using less.hyps [of xs] l' Cons by simp
      show ?thesis
        using False by (simp add: Cons ih)
    qed
  qed
qed

lemma delta_of_spec_extension:
  assumes "prev \<noteq> []" "\<not> isspace (last prev)"
  shows "delta_of prev (prev @ rest) = strip (spec_delta prev (prev @ rest))"
  using assms by (simp add: delta_of_extension spec_delta_def spec_prefix_len_extension)

lemma emit_speaker_growth:
  assumes "prev \<noteq> []" "\<not> isspace (last prev)"
    and "get_or (emitted_last_by_speaker st) speaker [] = prev"
    and "2 \<le> length (strip rest)"
    and "\<not> suppressed st speaker (strip rest) (clock speaker)"
  shows "sent (emit_speaker now clock (speaker, prev @ rest) st)
           = sent st @ [(strip speaker, strip rest, now)]"
    and "map_of (emitted_last_by_speaker (emit_speaker now clock (speaker, prev @ rest) st)) speaker
           = Some (prev @ rest)"
proof -
  let ?cur = "prev @ rest"
  from assms have ne: "strip (strip rest) \<noteq> []"
    by (auto simp: strip_idem)
  have e: "emit_speaker now clock (speaker, ?cur) st =
     (emit_final st speaker (strip rest) now (clock speaker))
       \<lparr>emitted_last_by_speaker := AList.update speaker ?cur (emitted_last_by_speaker st)\<rparr>"
    using assms emit_speaker_long [of st speaker ?cur now clock] by (simp add: delta_of_extension)
  show "sent (emit_speaker now clock (speaker, ?cur) st) = sent st @ [(strip speaker, strip rest, now)]"
    using emit_final_emitted(1) [OF ne assms(5), of now] by (simp add: e strip_idem)
  show "map_of (emitted_last_by_speaker (emit_speaker now clock (speaker, ?cur) st)) speaker = Some ?cur"
    by (simp add: e update_conv')
qed

text \<open>The example of the specification: the delta of the code is the new suffix
  without its leading blank, since \<^verbatim>\<open>_emit_periodic\<close> strips it (and \<^verbatim>\<open>_emit_final\<close>
  would); the whole string is not emitted again. The same holds when the two snapshots
  differ in case and in the length of their runs of white space.\<close>

lemma delta_examples:
  "spec_delta ''The plan is'' ''The plan is to ship'' = '' to ship''
   \<and> delta_of ''The plan is'' ''The plan is to ship'' = ''to ship''
   \<and> sent (emit_periodic 8 (same_clock 8)
          (on_caption (emit_periodic 4 (same_clock 4) (on_caption observer0 ''The plan is'' ''Alice''))
             ''The plan is to ship'' ''Alice''))
       = [(''Alice'', ''The plan is'', 4), (''Alice'', ''to ship'', 8)]
   \<and> spec_delta ''The  Plan is'' ''the plan   IS to ship'' = '' to ship''
   \<and> delta_of ''The  Plan is'' ''the plan   IS to ship'' = ''to ship''"
  by code_simp

text \<open>
  Claim C5 says that the emitted delta is the suffix of the new snapshot after the
  longest common prefix with the previously emitted text, the comparison being up to
  case and collapsing runs of white space. The code does not do this when the previous
  text contains white space: after a run of white space has matched, the indices of
  \<^verbatim>\<open>_prefix_len\<close> already stand behind the two runs, and the match of the two blanks
  advances them once more, over a pair of characters that is never compared. After
  \<^verbatim>\<open>"hello world"\<close> the snapshot \<^verbatim>\<open>"hello there friend"\<close> has the common prefix
  \<^verbatim>\<open>"hello "\<close> of 6 characters and the delta \<^verbatim>\<open>"there friend"\<close>; \<^verbatim>\<open>_prefix_len\<close> returns
  7 and the emission is \<^verbatim>\<open>"here friend"\<close>. After \<^verbatim>\<open>"The plan is"\<close> the snapshot
  \<^verbatim>\<open>"The plan was to ship"\<close> has the delta \<^verbatim>\<open>"was to ship"\<close> and the emission is
  \<^verbatim>\<open>"as to ship"\<close>.
\<close>

theorem delta_emission_slip:
  "spec_prefix_len ''hello world'' ''hello there friend'' = 6
   \<and> spec_delta ''hello world'' ''hello there friend'' = ''there friend''
   \<and> prefix_len ''hello world'' ''hello there friend'' = 7
   \<and> delta_of ''hello world'' ''hello there friend'' = ''here friend''
   \<and> sent (emit_periodic 8 (same_clock 8)
          (on_caption (emit_periodic 4 (same_clock 4) (on_caption observer0 ''hello world'' ''Alice''))
             ''hello there friend'' ''Alice''))
       = [(''Alice'', ''hello world'', 4), (''Alice'', ''here friend'', 8)]
   \<and> spec_delta ''The plan is'' ''The plan was to ship'' = ''was to ship''
   \<and> sent (emit_periodic 8 (same_clock 8)
          (on_caption (emit_periodic 4 (same_clock 4) (on_caption observer0 ''The plan is'' ''Alice''))
             ''The plan was to ship'' ''Alice''))
       = [(''Alice'', ''The plan is'', 4), (''Alice'', ''as to ship'', 8)]"
  by code_simp

subsection \<open>A delta too short to emit\<close>

text \<open>
  The claim as it is worded fails: after \<^verbatim>\<open>"Hello"\<close> has been emitted, the snapshot
  \<^verbatim>\<open>"Hello!"\<close> gives the one-character delta \<^verbatim>\<open>"!"\<close>; nothing is emitted, and the
  bookkeeping still holds \<^verbatim>\<open>"Hello"\<close>, not the latest text \<^verbatim>\<open>"Hello!"\<close>.
\<close>

theorem short_delta_counterexample:
  "sent (emit_periodic 8 (same_clock 8)
          (on_caption (emit_periodic 4 (same_clock 4) (on_caption observer0 ''Hello'' ''Alice''))
             ''Hello!'' ''Alice''))
     = [(''Alice'', ''Hello'', 4)]
   \<and> curr_by_speaker (emit_periodic 8 (same_clock 8)
          (on_caption (emit_periodic 4 (same_clock 4) (on_caption observer0 ''Hello'' ''Alice''))
             ''Hello!'' ''Alice'')) = [(''Alice'', ''Hello!'')]
   \<and> emitted_last_by_speaker (emit_periodic 8 (same_clock 8)
          (on_caption (emit_periodic 4 (same_clock 4) (on_caption observer0 ''Hello'' ''Alice''))
             ''Hello!'' ''Alice'')) = [(''Alice'', ''Hello'')]
   \<and> ''Hello'' \<noteq> ''Hello!''"
  by code_simp


text \<open>
  Claim C7, amended. In a round of the delta emitter, a speaker whose delta has fewer
  than 2 characters gets nothing emitted, the dedup table is left as it was, and the
  bookkeeping of the speaker keeps the previously emitted text when there is one; it
  takes the latest snapshot only when there was none. The next delta is computed
  against the text last emitted.
\<close>

theorem short_delta_bookkeeping:
  "length (delta_of (get_or (emitted_last_by_speaker st) speaker []) cur) < 2 \<longrightarrow>
     sent (emit_speaker now clock (speaker, cur) st) = sent st \<and>
     LAST_SENT (emit_speaker now clock (speaker, cur) st) = LAST_SENT st \<and>
     map_of (emitted_last_by_speaker (emit_speaker now clock (speaker, cur) st)) speaker =
       Some (if get_or (emitted_last_by_speaker st) speaker [] \<noteq> []
             then get_or (emitted_last_by_speaker st) speaker [] else cur)"
proof
  assume a: "length (delta_of (get_or (emitted_last_by_speaker st) speaker []) cur) < 2"
  show "sent (emit_speaker now clock (speaker, cur) st) = sent st \<and>
     LAST_SENT (emit_speaker now clock (speaker, cur) st) = LAST_SENT st \<and>
     map_of (emitted_last_by_speaker (emit_speaker now clock (speaker, cur) st)) speaker =
       Some (if get_or (emitted_last_by_speaker st) speaker [] \<noteq> []
             then get_or (emitted_last_by_speaker st) speaker [] else cur)"
    unfolding emit_speaker_short [OF a] by (simp add: update_conv')
qed

theorem short_delta_bookkeeping_witness:
  "length (delta_of (get_or (emitted_last_by_speaker
       (observer0\<lparr>emitted_last_by_speaker := [(''Alice'', ''Hello'')]\<rparr>)) ''Alice'' []) ''Hello!'') < 2
   \<and> sent (emit_speaker 8 (same_clock 8) (''Alice'', ''Hello!'')
        (observer0\<lparr>emitted_last_by_speaker := [(''Alice'', ''Hello'')]\<rparr>)) = []
   \<and> map_of (emitted_last_by_speaker (emit_speaker 8 (same_clock 8) (''Alice'', ''Hello!'')
        (observer0\<lparr>emitted_last_by_speaker := [(''Alice'', ''Hello'')]\<rparr>))) ''Alice'' = Some ''Hello''"
proof -
  let ?st = "observer0\<lparr>emitted_last_by_speaker := [(''Alice'', ''Hello'')]\<rparr>"
  have g: "get_or (emitted_last_by_speaker ?st) ''Alice'' [] = ''Hello''"
    by (simp add: get_or_def)
  have d: "delta_of ''Hello'' ''Hello!'' = ''!''"
    by code_simp
  have h: "length (delta_of (get_or (emitted_last_by_speaker ?st) ''Alice'' []) ''Hello!'') < 2"
    unfolding g d by simp
  note t' = short_delta_bookkeeping [of ?st "''Alice''" "''Hello!''" 8 "same_clock 8", THEN mp, OF h]
  have a: "sent (emit_speaker 8 (same_clock 8) (''Alice'', ''Hello!'') ?st) = []"
    using t' [THEN conjunct1] by (simp add: observer0_def)
  have b: "map_of (emitted_last_by_speaker (emit_speaker 8 (same_clock 8) (''Alice'', ''Hello!'') ?st))
      ''Alice'' = Some ''Hello''"
    using t' [THEN conjunct2, THEN conjunct2] unfolding g by simp
  from h a b show ?thesis by simp
qed

end
